theory Spec2Isabelle
  imports Main
begin

section \<open>Data model of storageIpc.ts\<close>

text \<open>
  \<^verbatim>\<open>type Key = string; type Value = string; type Item = [Key, Value];\<close>
\<close>

type_synonym Key = string
type_synonym Value = string
type_synonym Item = "Key \<times> Value"

text \<open>
  What a slot typed \<^verbatim>\<open>string\<close> holds at run time where the source reads storage without
  a fallback or passes \<^verbatim>\<open>null\<close>: \<^verbatim>\<open>undefined\<close>, \<^verbatim>\<open>null\<close> or a string.
\<close>

datatype jsval = Undefined | Null | Str Value

text \<open>
  An ECMAScript \<^verbatim>\<open>Map\<close>: entries in insertion order, one per key. \<^verbatim>\<open>set\<close> on a key
  already present replaces the value where the entry stands, \<^verbatim>\<open>set\<close> on a new key
  appends, \<^verbatim>\<open>delete\<close> drops the entry. A \<^verbatim>\<open>Set\<close> is the list of its members in
  insertion order.
\<close>

type_synonym ('k, 'v) js_map = "('k \<times> 'v) list"

fun map_set :: "'k \<Rightarrow> 'v \<Rightarrow> ('k, 'v) js_map \<Rightarrow> ('k, 'v) js_map" where
  "map_set k v [] = [(k, v)]"
| "map_set k v ((k', v') # m) = (if k' = k then (k, v) # m else (k', v') # map_set k v m)"

fun map_get :: "('k, 'v) js_map \<Rightarrow> 'k \<Rightarrow> 'v option" where
  "map_get [] k = None"
| "map_get ((k', v') # m) k = (if k' = k then Some v' else map_get m k)"

definition map_delete :: "'k \<Rightarrow> ('k, 'v) js_map \<Rightarrow> ('k, 'v) js_map" where
  "map_delete k m = filter (\<lambda>e. fst e \<noteq> k) m"

definition map_size :: "('k, 'v) js_map \<Rightarrow> nat" where
  "map_size m = length m"

definition well_formed :: "('k, 'v) js_map \<Rightarrow> bool" where
  "well_formed m = distinct (map fst m)"

section \<open>Codec (vs/base/common/map)\<close>

text \<open>
  Modelled from the spec: \<^verbatim>\<open>mapToSerializable\<close>, \<^verbatim>\<open>serializableToMap\<close> and \<^verbatim>\<open>values\<close>
  are imported from vs/base/common/map, which is not among the sources. Section 4.1:
  encode turns a mapping into the ordered sequence of its Items; decode inserts the Items
  of a sequence left to right into an empty mapping, so that the last occurrence of a
  duplicate key wins. Section 4.4: the delete side of a request becomes a key list.
\<close>

definition mapToSerializable :: "('k, 'v) js_map \<Rightarrow> ('k \<times> 'v) list" where
  "mapToSerializable m = foldl (\<lambda>serializable (key, val). serializable @ [(key, val)]) [] m"

definition serializableToMap :: "('k \<times> 'v) list \<Rightarrow> ('k, 'v) js_map" where
  "serializableToMap serializable = foldl (\<lambda>items (key, val). map_set key val items) [] serializable"

definition values_of :: "'a list \<Rightarrow> 'a list" where
  "values_of s = foldl (\<lambda>result v. result @ [v]) [] s"

section \<open>The storage collaborator (StorageMainService)\<close>

text \<open>
  Modelled from the spec: \<^verbatim>\<open>StorageMainService\<close> (vs/platform/storage/node/storageMainService)
  is not among the sources. Section 6 gives the interface this file consumes:
  \<^verbatim>\<open>get(key, fallback) -> value|fallback\<close>, \<^verbatim>\<open>store(key, value)\<close>, \<^verbatim>\<open>remove(key)\<close>,
  \<^verbatim>\<open>checkIntegrity(full) -> string\<close> and \<^verbatim>\<open>items\<close>, every key/value pair currently in
  storage. Section 3: values in storage are strings, and \<^verbatim>\<open>undefined\<close>/\<^verbatim>\<open>null\<close> is the
  owner's "missing" sentinel, so storing the sentinel leaves the key missing. The
  diagnostic reports are opaque strings held by the collaborator. The journal lists the
  \<^verbatim>\<open>store\<close> and \<^verbatim>\<open>remove\<close> calls received, oldest first.
\<close>

datatype storage_call = Store Key jsval | Remove Key

record storage =
  cache :: "(Key, Value) js_map"
  journal :: "storage_call list"
  quick_report :: string
  full_report :: string

definition get :: "storage \<Rightarrow> Key \<Rightarrow> jsval \<Rightarrow> jsval" where
  "get s k fallbackValue = (case map_get (cache s) k of None \<Rightarrow> fallbackValue | Some v \<Rightarrow> Str v)"

definition store :: "Key \<Rightarrow> jsval \<Rightarrow> storage \<Rightarrow> storage" where
  "store k v s =
     s\<lparr>cache := (case v of Str x \<Rightarrow> map_set k x (cache s) | _ \<Rightarrow> map_delete k (cache s)),
       journal := journal s @ [Store k v]\<rparr>"

definition remove :: "Key \<Rightarrow> storage \<Rightarrow> storage" where
  "remove k s = s\<lparr>cache := map_delete k (cache s), journal := journal s @ [Remove k]\<rparr>"

definition storage_items :: "storage \<Rightarrow> (Key, Value) js_map" where
  "storage_items s = cache s"

definition storage_checkIntegrity :: "storage \<Rightarrow> bool \<Rightarrow> string" where
  "storage_checkIntegrity s full = (if full then full_report s else quick_report s)"

text \<open>The calls a storage received between an earlier state and a later one.\<close>

definition writes_since :: "storage \<Rightarrow> storage \<Rightarrow> storage_call list" where
  "writes_since s s' = drop (length (journal s)) (journal s')"

section \<open>The Gateway: GlobalStorageDatabaseChannel\<close>

subsection \<open>Wire types\<close>

text \<open>
  \<^verbatim>\<open>interface ISerializableUpdateRequest { insert?: Item[]; delete?: Key[]; }\<close> and
  \<^verbatim>\<open>interface ISerializableItemsChangeEvent { items: Item[]; }\<close>. An optional field
  is an \<open>option\<close>; the value slot of a change event's Item holds what \<^verbatim>\<open>get(key)\<close>
  returned, so it is a \<open>jsval\<close>. \<^verbatim>\<open>IStorageChangeEvent\<close> is the raw event of the
  storage, read here through its \<^verbatim>\<open>key\<close> only.
\<close>

record ISerializableUpdateRequest =
  insert_items :: "Item list option"
  delete_keys :: "Key list option"

datatype ISerializableItemsChangeEvent = ItemsChangeEvent (items: "(Key \<times> jsval) list")

record IStorageChangeEvent =
  key :: Key

text \<open>
  The untyped argument of \<^verbatim>\<open>call(_, command, arg?: any)\<close>: absent, a boolean (the
  \<^verbatim>\<open>full\<close> flag) or an update request.
\<close>

datatype arg = ArgUndefined | ArgBool bool | ArgRequest ISerializableUpdateRequest

datatype error = CallNotFound string | EventNotFound string | TypeError

datatype reply = Items "Item list" | Done | Report string | Failed error

type_synonym request = "nat \<times> string \<times> arg"

text \<open>
  The promise \<^verbatim>\<open>whenReady\<close>: pending, with the reactions chained on it by \<^verbatim>\<open>then\<close>
  in the order they were chained, or fulfilled.
\<close>

datatype ready = Pending "request list" | Fulfilled

text \<open>
  What the environment answers during one initialization: \<^verbatim>\<open>generateUuid()\<close>, the
  \<^verbatim>\<open>new Date().toUTCString()\<close> of the first-session date and that of the current
  session. The four identity keys are imported from
  vs/platform/telemetry/node/workbenchCommonProperties, which is not among the sources;
  they are parameters here.
\<close>

record telemetry_keys =
  instanceStorageKey :: Key
  firstSessionDateStorageKey :: Key
  lastSessionDateStorageKey :: Key
  currentSessionDateStorageKey :: Key

record session =
  uuid :: string
  first_date :: string
  current_date :: string

subsection \<open>State\<close>

text \<open>
  The fields of the channel object and what it has emitted: the storage it owns, the
  promise \<^verbatim>\<open>whenReady\<close>, the errors handed to \<^verbatim>\<open>onUnexpectedError\<close> and to
  \<^verbatim>\<open>logService.error\<close>, whether the debounced listener is registered, the debouncer's
  pending events and its timer (the time at which it fires), the
  clock, the events fired on \<^verbatim>\<open>_onDidChangeItems\<close>, the settled promises returned by
  \<^verbatim>\<open>call\<close> and the exceptions \<^verbatim>\<open>call\<close> threw.
\<close>

record gateway =
  storage :: storage
  whenReady :: ready
  unexpected :: "string list"
  logged :: "string list"
  listening :: bool
  pending :: "IStorageChangeEvent list option"
  timer :: "nat option"
  now :: nat
  fired :: "ISerializableItemsChangeEvent list"
  replies :: "(nat \<times> reply) list"
  thrown :: "(nat \<times> error) list"

definition STORAGE_CHANGE_DEBOUNCE_TIME :: nat where
  "STORAGE_CHANGE_DEBOUNCE_TIME = 100"

text \<open>The constructor: \<^verbatim>\<open>this.whenReady = this.init()\<close>, a pending promise.\<close>

definition new_gateway :: "storage \<Rightarrow> gateway" where
  "new_gateway s =
     \<lparr>storage = s, whenReady = Pending [], unexpected = [], logged = [], listening = False,
      pending = None, timer = None, now = 0, fired = [], replies = [], thrown = []\<rparr>"

subsection \<open>initTelemetry\<close>

definition initTelemetry :: "telemetry_keys \<Rightarrow> session \<Rightarrow> storage \<Rightarrow> storage" where
  "initTelemetry ks ses s =
     (let instanceId = get s (instanceStorageKey ks) Undefined;
          s1 = (if instanceId = Undefined then store (instanceStorageKey ks) (Str (uuid ses)) s else s);
          firstSessionDate = get s1 (firstSessionDateStorageKey ks) Undefined;
          s2 = (if firstSessionDate = Undefined
                then store (firstSessionDateStorageKey ks) (Str (first_date ses)) s1 else s1);
          lastSessionDate = get s2 (currentSessionDateStorageKey ks) Undefined;
          currentSessionDate = Str (current_date ses);
          s3 = store (lastSessionDateStorageKey ks)
                 (if lastSessionDate = Undefined then Null else lastSessionDate) s2
      in store (currentSessionDateStorageKey ks) currentSessionDate s3)"

subsection \<open>registerListeners and serializeEvents\<close>

text \<open>
  Modelled from the spec: \<^verbatim>\<open>Event.debounce\<close> (vs/base/common/event) is not among the
  sources. Section 4.2 and the design notes: a trailing debounce holding the accumulated
  value and a timer; every input merges into the accumulator and resets the timer to
  \<open>delay\<close> after that input; when the timer fires, the accumulator is handed to the
  listener and both are cleared.
\<close>

definition debounce_input ::
  "('o option \<Rightarrow> 'i \<Rightarrow> 'o) \<Rightarrow> nat \<Rightarrow> nat \<Rightarrow> 'i \<Rightarrow> 'o option \<times> nat option \<Rightarrow> 'o option \<times> nat option" where
  "debounce_input merge delay t cur d = (Some (merge (fst d) cur), Some (t + delay))"

definition debounce_clear :: "'o option \<times> nat option \<Rightarrow> 'o option \<times> nat option" where
  "debounce_clear d = (None, None)"

text \<open>
  The merger of \<^verbatim>\<open>registerListeners\<close>:
  \<^verbatim>\<open>if (!prev) { prev = [cur]; } else { prev.push(cur); } return prev;\<close>
\<close>

definition merger :: "IStorageChangeEvent list option \<Rightarrow> IStorageChangeEvent \<Rightarrow> IStorageChangeEvent list" where
  "merger prev cur = (case prev of None \<Rightarrow> [cur] | Some p \<Rightarrow> p @ [cur])"

definition serializeEvents :: "storage \<Rightarrow> IStorageChangeEvent list \<Rightarrow> ISerializableItemsChangeEvent" where
  "serializeEvents s events =
     ItemsChangeEvent (mapToSerializable
       (foldl (\<lambda>its event. map_set (key event) (get s (key event) Undefined) its) [] events))"

definition registerListeners :: "gateway \<Rightarrow> gateway" where
  "registerListeners g = g\<lparr>listening := True\<rparr>"

text \<open>The storage fires \<^verbatim>\<open>onDidChangeStorage\<close>: heard once the listener is registered.\<close>

definition onDidChangeStorage :: "IStorageChangeEvent \<Rightarrow> gateway \<Rightarrow> gateway" where
  "onDidChangeStorage cur g =
     (if listening g
      then (let d = debounce_input merger STORAGE_CHANGE_DEBOUNCE_TIME (now g) cur (pending g, timer g)
            in g\<lparr>pending := fst d, timer := snd d\<rparr>)
      else g)"

text \<open>
  The debounce timer fires: the listener of \<^verbatim>\<open>registerListeners\<close> receives the
  accumulated events, \<^verbatim>\<open>if (events.length) { this._onDidChangeItems.fire(...) }\<close>.
\<close>

definition onTimeout :: "gateway \<Rightarrow> gateway" where
  "onTimeout g =
     (let events = pending g;
          d = debounce_clear (pending g, timer g);
          g' = g\<lparr>pending := fst d, timer := snd d\<rparr>
      in case events of
           None \<Rightarrow> g'
         | Some evs \<Rightarrow>
             if length evs \<noteq> 0 then g'\<lparr>fired := fired g' @ [serializeEvents (storage g') evs]\<rparr>
             else g')"

subsection \<open>listen and call\<close>

definition listen :: "string \<Rightarrow> error + unit" where
  "listen event = (if event = ''onDidChangeItems'' then Inr () else Inl (EventNotFound event))"

text \<open>
  The body of \<^verbatim>\<open>updateItems\<close>: the \<^verbatim>\<open>for\<close> loop over \<^verbatim>\<open>items.insert\<close>, then the
  \<^verbatim>\<open>forEach\<close> over \<^verbatim>\<open>items.delete\<close>; an array is truthy also when empty.
\<close>

definition updateItems_body :: "ISerializableUpdateRequest \<Rightarrow> storage \<Rightarrow> storage" where
  "updateItems_body r s =
     (let s1 = (case insert_items r of
                  None \<Rightarrow> s
                | Some ins \<Rightarrow> foldl (\<lambda>st (k, v). store k (Str v) st) s ins)
      in case delete_keys r of
           None \<Rightarrow> s1
         | Some dels \<Rightarrow> foldl (\<lambda>st k. remove k st) s1 dels)"

text \<open>JavaScript truthiness of the argument, as \<^verbatim>\<open>checkIntegrity(full)\<close> reads it.\<close>

fun truthy :: "arg \<Rightarrow> bool" where
  "truthy ArgUndefined = False"
| "truthy (ArgBool b) = b"
| "truthy (ArgRequest r) = True"

definition is_command :: "string \<Rightarrow> bool" where
  "is_command command = (command = ''getItems'' \<or> command = ''updateItems'' \<or> command = ''checkIntegrity'')"

text \<open>
  The function passed to \<^verbatim>\<open>this.whenReady.then\<close> by each case of \<^verbatim>\<open>call\<close>, with the
  promise it settles. \<^verbatim>\<open>updateItems\<close> with no argument reads \<^verbatim>\<open>undefined.insert\<close>, a
  TypeError that rejects the promise; a boolean has neither field.
\<close>

definition body :: "request \<Rightarrow> gateway \<Rightarrow> gateway" where
  "body q g =
     (case q of (rid, command, a) \<Rightarrow>
        if command = ''getItems''
        then g\<lparr>replies := replies g @ [(rid, Items (mapToSerializable (storage_items (storage g))))]\<rparr>
        else if command = ''updateItems''
        then (case a of
                ArgRequest r \<Rightarrow>
                  g\<lparr>storage := updateItems_body r (storage g), replies := replies g @ [(rid, Done)]\<rparr>
              | ArgBool b \<Rightarrow> g\<lparr>replies := replies g @ [(rid, Done)]\<rparr>
              | ArgUndefined \<Rightarrow> g\<lparr>replies := replies g @ [(rid, Failed TypeError)]\<rparr>)
        else g\<lparr>replies := replies g @ [(rid, Report (storage_checkIntegrity (storage g) (truthy a)))]\<rparr>)"

text \<open>
  \<^verbatim>\<open>call\<close>: the three commands chain their body on \<^verbatim>\<open>whenReady\<close>; a reaction chained
  on a pending promise waits in its queue, one chained on a fulfilled promise runs in the
  same turn. Any other command throws.
\<close>

definition call :: "nat \<Rightarrow> string \<Rightarrow> arg \<Rightarrow> gateway \<Rightarrow> gateway" where
  "call rid command a g =
     (if is_command command
      then (case whenReady g of
              Pending waiting \<Rightarrow> g\<lparr>whenReady := Pending (waiting @ [(rid, command, a)])\<rparr>
            | Fulfilled \<Rightarrow> body (rid, command, a) g)
      else g\<lparr>thrown := thrown g @ [(rid, CallNotFound command)]\<rparr>)"

subsection \<open>init\<close>

text \<open>The reactions chained on a promise run one after the other, in the order given.\<close>

definition serve :: "request list \<Rightarrow> gateway \<Rightarrow> gateway" where
  "serve waiting g = foldl (\<lambda>st q. body q st) g waiting"

text \<open>
  \<^verbatim>\<open>storageMainService.initialize()\<close> settles, with an error or without. The rejection
  handler reports and logs the error and returns; the next \<^verbatim>\<open>then\<close> runs
  \<^verbatim>\<open>initTelemetry\<close> and \<^verbatim>\<open>registerListeners\<close>; that fulfils \<^verbatim>\<open>whenReady\<close>, whose
  reactions run in the order they were chained. A promise settles once.
\<close>

definition init_settled :: "telemetry_keys \<Rightarrow> string option \<Rightarrow> session \<Rightarrow> gateway \<Rightarrow> gateway" where
  "init_settled ks failure ses g =
     (case whenReady g of
        Fulfilled \<Rightarrow> g
      | Pending waiting \<Rightarrow>
          (let g1 = (case failure of
                       None \<Rightarrow> g
                     | Some e \<Rightarrow> g\<lparr>unexpected := unexpected g @ [e], logged := logged g @ [e]\<rparr>);
               g2 = g1\<lparr>storage := initTelemetry ks ses (storage g1)\<rparr>;
               g3 = registerListeners g2;
               g4 = g3\<lparr>whenReady := Fulfilled\<rparr>
           in serve waiting g4))"

subsection \<open>The event loop\<close>

text \<open>
  One turn of the owner process: \<open>dt\<close> time units after the previous turn, the storage's
  initialization settles, a remote call arrives, the storage fires a raw change event,
  or nothing happens. A debounce timer that is due fires before the turn.
\<close>

datatype input =
    InitSettled "string option" session
  | Call nat string arg
  | StorageChange IStorageChangeEvent
  | Idle

definition advance :: "nat \<Rightarrow> gateway \<Rightarrow> gateway" where
  "advance dt g =
     (let g' = g\<lparr>now := now g + dt\<rparr>
      in case timer g' of
           None \<Rightarrow> g'
         | Some due \<Rightarrow> if due \<le> now g' then onTimeout g' else g')"

fun react :: "telemetry_keys \<Rightarrow> gateway \<Rightarrow> nat \<times> input \<Rightarrow> gateway" where
  "react ks g (dt, InitSettled failure ses) = init_settled ks failure ses (advance dt g)"
| "react ks g (dt, Call rid command a) = call rid command a (advance dt g)"
| "react ks g (dt, StorageChange cur) = onDidChangeStorage cur (advance dt g)"
| "react ks g (dt, Idle) = advance dt g"

definition run :: "telemetry_keys \<Rightarrow> (nat \<times> input) list \<Rightarrow> gateway \<Rightarrow> gateway" where
  "run ks ins g = foldl (react ks) g ins"

text \<open>
  The calls among the turns that name one of the three commands, in the order they were
  issued; the raw change events among the turns; and whether the initialization has
  not settled during the turns.
\<close>

fun requests :: "(nat \<times> input) list \<Rightarrow> request list" where
  "requests [] = []"
| "requests ((dt, Call rid command a) # rest) =
     (if is_command command then (rid, command, a) # requests rest else requests rest)"
| "requests ((dt, i) # rest) = requests rest"

fun raw_events :: "(nat \<times> input) list \<Rightarrow> IStorageChangeEvent list" where
  "raw_events [] = []"
| "raw_events ((dt, StorageChange e) # rest) = e # raw_events rest"
| "raw_events ((dt, i) # rest) = raw_events rest"

fun unsettled :: "(nat \<times> input) list \<Rightarrow> bool" where
  "unsettled [] = True"
| "unsettled ((dt, InitSettled failure ses) # rest) = False"
| "unsettled ((dt, i) # rest) = unsettled rest"

text \<open>
  The turns all fall within one debounce window that has \<open>left\<close> time units to run:
  each comes before the timer is due, and a raw change event starts the quiet period
  afresh.
\<close>

fun within_window :: "nat \<Rightarrow> (nat \<times> input) list \<Rightarrow> bool" where
  "within_window left [] = True"
| "within_window left ((dt, StorageChange e) # rest) =
     (dt < left \<and> within_window STORAGE_CHANGE_DEBOUNCE_TIME rest)"
| "within_window left ((dt, i) # rest) = (dt < left \<and> within_window (left - dt) rest)"

section \<open>The Proxy: GlobalStorageDatabaseChannelClient\<close>

text \<open>
  \<^verbatim>\<open>IUpdateRequest\<close> and \<^verbatim>\<open>IStorageItemsChangeEvent\<close> are declared in vs/base/node/storage:
  a request holds an optional \<^verbatim>\<open>Map\<close> of inserts and an optional \<^verbatim>\<open>Set\<close> of keys to
  delete, the local change event holds the decoded \<^verbatim>\<open>Map\<close>.
\<close>

record IUpdateRequest =
  insert_map :: "(Key, Value) js_map option"
  delete_set :: "Key list option"

text \<open>
  What arrives on the channel as the payload \<^verbatim>\<open>e\<close> of a remote event is untyped: any
  value that the transport can carry. Numbers are taken as integers; a string is the
  list of the characters its iterator yields.
\<close>

datatype wire =
    WUndefined
  | WNull
  | WBool bool
  | WNumber int
  | WString string
  | WArray "wire list"
  | WObject "(string \<times> wire) list"

text \<open>
  The local change event holds the \<^verbatim>\<open>Map\<close> that was decoded from the payload. Its type
  is \<^verbatim>\<open>Map<string, string>\<close>; at run time its keys and values are whatever the
  payload's entries held.
\<close>

datatype IStorageItemsChangeEvent = StorageItemsChangeEvent (changed: "(wire, wire) js_map")

text \<open>
  Reading a property of \<^verbatim>\<open>undefined\<close> or \<^verbatim>\<open>null\<close> is a TypeError; a value without the
  property gives \<^verbatim>\<open>undefined\<close>.
\<close>

fun property :: "wire \<Rightarrow> string \<Rightarrow> error + wire" where
  "property WUndefined f = Inl TypeError"
| "property WNull f = Inl TypeError"
| "property (WObject props) f = Inr (case map_of props f of None \<Rightarrow> WUndefined | Some x \<Rightarrow> x)"
| "property w f = Inr WUndefined"

fun isArray :: "wire \<Rightarrow> bool" where
  "isArray (WArray xs) = True"
| "isArray w = False"

text \<open>
  Whether the payload has an \<^verbatim>\<open>items\<close> field that is an array.
\<close>

definition items_is_array :: "wire \<Rightarrow> bool" where
  "items_is_array e = (case property e ''items'' of Inl err \<Rightarrow> False | Inr its \<Rightarrow> isArray its)"

text \<open>
  The array pattern \<^verbatim>\<open>[key, value]\<close> applied to a run-time value: an array gives its
  first two elements and a string its first two characters, \<^verbatim>\<open>undefined\<close> where there
  is none; any other value is not iterable, a TypeError.
\<close>

fun element :: "wire list \<Rightarrow> nat \<Rightarrow> wire" where
  "element xs n = (if n < length xs then xs ! n else WUndefined)"

fun character :: "string \<Rightarrow> nat \<Rightarrow> wire" where
  "character s n = (if n < length s then WString [s ! n] else WUndefined)"

fun iterable :: "wire \<Rightarrow> bool" where
  "iterable (WArray xs) = True"
| "iterable (WString s) = True"
| "iterable w = False"

fun destructure :: "wire \<Rightarrow> error + wire \<times> wire" where
  "destructure (WArray xs) = Inr (element xs 0, element xs 1)"
| "destructure (WString s) = Inr (character s 0, character s 1)"
| "destructure w = Inl TypeError"

text \<open>
  \<^verbatim>\<open>Map.set\<close> with run-time keys: a key matches an entry when it is the same primitive
  value; an array or object that came off the wire is a fresh reference and matches no
  entry.
\<close>

fun primitive :: "wire \<Rightarrow> bool" where
  "primitive (WArray xs) = False"
| "primitive (WObject props) = False"
| "primitive w = True"

fun set_entry :: "wire \<Rightarrow> wire \<Rightarrow> (wire, wire) js_map \<Rightarrow> (wire, wire) js_map" where
  "set_entry k v [] = [(k, v)]"
| "set_entry k v ((k', v') # m) =
     (if k' = k \<and> primitive k then (k, v) # m else (k', v') # set_entry k v m)"

text \<open>
  Modelled from the spec: \<^verbatim>\<open>serializableToMap\<close> (vs/base/common/map, not among the
  sources) applied to an array as it comes off the wire, before anything has checked that
  its elements are Items. Section 4.1: the elements are inserted left to right into an
  empty mapping; each is taken apart by the pattern \<^verbatim>\<open>[key, value]\<close>, so the first
  element that is not iterable ends the decoding with its TypeError.
\<close>

fun insert_entries :: "(wire, wire) js_map \<Rightarrow> wire list \<Rightarrow> error + (wire, wire) js_map" where
  "insert_entries its [] = Inr its"
| "insert_entries its (x # xs) =
     (case destructure x of
        Inl err \<Rightarrow> Inl err
      | Inr (k, v) \<Rightarrow> insert_entries (set_entry k v its) xs)"

definition serializableToMap_untyped :: "wire list \<Rightarrow> error + (wire, wire) js_map" where
  "serializableToMap_untyped serializable = insert_entries [] serializable"

text \<open>An Item on the wire: the two-element array of its key and its value.\<close>

definition wire_item :: "Key \<times> wire \<Rightarrow> wire" where
  "wire_item it = WArray [WString (fst it), snd it]"

text \<open>
  \<^verbatim>\<open>channel.call(command, arg)\<close> as the Proxy issues it, and the promise a Proxy
  operation returns: \<^verbatim>\<open>Promise.resolve()\<close> or the promise of a remote call.
\<close>

datatype remote_call = RemoteCall string arg

datatype returned = ResolvedPromise | ChannelPromise remote_call

text \<open>
  Modelled from the spec: \<^verbatim>\<open>dispose\<close> (vs/base/common/lifecycle) and the subscription
  that \<^verbatim>\<open>channel.listen\<close> returns are not among the sources. Section 4.4: disposing
  the handle unsubscribes from the remote event, and is idempotent and safe to invoke
  several times. The channel hands a remote event to the listener only while the
  subscription stands.
\<close>

datatype subscription = Subscribed | Unsubscribed

definition dispose_listener :: "subscription \<Rightarrow> subscription" where
  "dispose_listener l = Unsubscribed"

text \<open>
  The fields of the client object and what it has done: the subscription handle, whether
  \<^verbatim>\<open>super.dispose()\<close> ran, the events fired on \<^verbatim>\<open>_onDidChangeItemsExternal\<close> and the
  remote calls issued, oldest first.
\<close>

record proxy =
  onDidChangeItemsOnMainListener :: subscription
  disposed :: bool
  external :: "IStorageItemsChangeEvent list"
  calls :: "remote_call list"

text \<open>The constructor, which runs the client's \<^verbatim>\<open>registerListeners\<close>.\<close>

definition new_proxy :: proxy where
  "new_proxy =
     \<lparr>onDidChangeItemsOnMainListener = Subscribed, disposed = False, external = [], calls = []\<rparr>"

definition onDidChangeItemsOnMain :: "wire \<Rightarrow> proxy \<Rightarrow> error + proxy" where
  "onDidChangeItemsOnMain e p =
     (case property e ''items'' of
        Inl err \<Rightarrow> Inl err
      | Inr its \<Rightarrow>
          (case its of
             WArray xs \<Rightarrow>
               (case serializableToMap_untyped xs of
                  Inl err \<Rightarrow> Inl err
                | Inr m \<Rightarrow> Inr (p\<lparr>external := external p @ [StorageItemsChangeEvent m]\<rparr>))
           | _ \<Rightarrow> Inr p))"

text \<open>The channel delivers a remote event: to the listener, if it is still subscribed.\<close>

definition deliver :: "wire \<Rightarrow> proxy \<Rightarrow> error + proxy" where
  "deliver e p =
     (case onDidChangeItemsOnMainListener p of
        Subscribed \<Rightarrow> onDidChangeItemsOnMain e p
      | Unsubscribed \<Rightarrow> Inr p)"

text \<open>
  \<^verbatim>\<open>getItems\<close> issues the remote call; \<open>getItems_then\<close> is the function it chains on the
  answer.
\<close>

definition getItems :: "proxy \<Rightarrow> proxy \<times> returned" where
  "getItems p =
     (let c = RemoteCall ''getItems'' ArgUndefined in (p\<lparr>calls := calls p @ [c]\<rparr>, ChannelPromise c))"

definition getItems_then :: "Item list \<Rightarrow> (Key, Value) js_map" where
  "getItems_then data = serializableToMap data"

definition updateItems :: "IUpdateRequest \<Rightarrow> proxy \<Rightarrow> proxy \<times> returned" where
  "updateItems request p =
     (let updateCount0 = (0::nat);
          ser_insert = (case insert_map request of None \<Rightarrow> None | Some m \<Rightarrow> Some (mapToSerializable m));
          updateCount1 = (case insert_map request of None \<Rightarrow> updateCount0 | Some m \<Rightarrow> updateCount0 + map_size m);
          ser_delete = (case delete_set request of None \<Rightarrow> None | Some s \<Rightarrow> Some (values_of s));
          updateCount = (case delete_set request of None \<Rightarrow> updateCount1 | Some s \<Rightarrow> updateCount1 + length s);
          serializableRequest = \<lparr>insert_items = ser_insert, delete_keys = ser_delete\<rparr>
      in if updateCount = 0 then (p, ResolvedPromise)
         else (let c = RemoteCall ''updateItems'' (ArgRequest serializableRequest)
               in (p\<lparr>calls := calls p @ [c]\<rparr>, ChannelPromise c)))"

definition checkIntegrity :: "bool \<Rightarrow> proxy \<Rightarrow> proxy \<times> returned" where
  "checkIntegrity full p =
     (let c = RemoteCall ''checkIntegrity'' (ArgBool full) in (p\<lparr>calls := calls p @ [c]\<rparr>, ChannelPromise c))"

definition close :: "proxy \<Rightarrow> proxy \<times> returned" where
  "close p =
     (p\<lparr>onDidChangeItemsOnMainListener := dispose_listener (onDidChangeItemsOnMainListener p)\<rparr>,
      ResolvedPromise)"

definition dispose :: "proxy \<Rightarrow> proxy" where
  "dispose p =
     (let p' = p\<lparr>disposed := True\<rparr>
      in p'\<lparr>onDidChangeItemsOnMainListener := dispose_listener (onDidChangeItemsOnMainListener p')\<rparr>)"

text \<open>
  A request whose insert set and delete set are both absent or empty, and the remote
  call that carries a request in serialized form.
\<close>

definition is_empty_request :: "IUpdateRequest \<Rightarrow> bool" where
  "is_empty_request request =
     ((insert_map request = None \<or> insert_map request = Some []) \<and>
      (delete_set request = None \<or> delete_set request = Some []))"

definition serialized_call :: "IUpdateRequest \<Rightarrow> remote_call" where
  "serialized_call request =
     RemoteCall ''updateItems''
       (ArgRequest \<lparr>insert_items = map_option mapToSerializable (insert_map request),
                    delete_keys = map_option values_of (delete_set request)\<rparr>)"

text \<open>The owner of a client tears it down by \<^verbatim>\<open>close()\<close> or \<^verbatim>\<open>dispose()\<close>, in any sequence.\<close>

datatype teardown = Close | Dispose

fun teardown_step :: "proxy \<Rightarrow> teardown \<Rightarrow> proxy" where
  "teardown_step p Close = fst (close p)"
| "teardown_step p Dispose = dispose p"

definition teardown_all :: "teardown list \<Rightarrow> proxy \<Rightarrow> proxy" where
  "teardown_all ops p = foldl teardown_step p ops"

section \<open>Sample values\<close>

text \<open>
  The identity keys as a concrete instance, a storage that an earlier session has
  seeded and that holds the keys \<open>a\<close> and \<open>b\<close>, and the answers of the environment
  during a later session.
\<close>

definition sample_keys :: telemetry_keys where
  "sample_keys =
     \<lparr>instanceStorageKey = ''telemetry.instanceId'',
      firstSessionDateStorageKey = ''telemetry.firstSessionDate'',
      lastSessionDateStorageKey = ''telemetry.lastSessionDate'',
      currentSessionDateStorageKey = ''telemetry.currentSessionDate''\<rparr>"

definition sample_storage :: storage where
  "sample_storage =
     \<lparr>cache = [(''telemetry.instanceId'', ''id-0''), (''telemetry.firstSessionDate'', ''Mon''),
               (''telemetry.currentSessionDate'', ''Tue''), (''a'', ''1''), (''b'', ''2'')],
      journal = [], quick_report = ''ok'', full_report = ''ok''\<rparr>"

definition sample_session :: session where
  "sample_session = \<lparr>uuid = ''id-1'', first_date = ''Wed'', current_date = ''Wed''\<rparr>"

text \<open>A Gateway on that storage whose initialization has completed.\<close>

definition sample_gateway :: gateway where
  "sample_gateway = (new_gateway sample_storage)\<lparr>whenReady := Fulfilled, listening := True\<rparr>"

text \<open>
  A burst of turns: the raw events for \<open>a\<close> and \<open>b\<close>, an update that overwrites \<open>a\<close> and
  deletes \<open>b\<close>, and the raw event for \<open>a\<close> again.
\<close>

definition sample_burst :: "(nat \<times> input) list" where
  "sample_burst =
     [(10, StorageChange \<lparr>key = ''b''\<rparr>),
      (20, Call 7 ''updateItems'' (ArgRequest \<lparr>insert_items = Some [(''a'', ''9'')], delete_keys = Some [''b'']\<rparr>)),
      (30, StorageChange \<lparr>key = ''a''\<rparr>)]"

section \<open>Properties of the codec\<close>

lemma push_all: "foldl (\<lambda>acc (k, v). acc @ [(k, v)]) acc xs = acc @ xs"
  by (induction xs arbitrary: acc) auto

lemma mapToSerializable_entries: "mapToSerializable m = m"
  by (simp add: mapToSerializable_def push_all)

lemma values_of_members: "values_of s = s"
proof -
  have "foldl (\<lambda>result v. result @ [v]) acc xs = acc @ xs" for acc xs :: "'a list"
    by (induction xs arbitrary: acc) auto
  then show ?thesis by (simp add: values_of_def)
qed

lemma map_set_fresh: "k \<notin> fst ` set m \<Longrightarrow> map_set k v m = m @ [(k, v)]"
  by (induction m) auto

lemma insert_all_distinct:
  "distinct (map fst (acc @ xs)) \<Longrightarrow>
   foldl (\<lambda>items (key, val). map_set key val items) acc xs = acc @ xs"
proof (induction xs arbitrary: acc)
  case Nil
  then show ?case by simp
next
  case (Cons x xs)
  obtain k v where x: "x = (k, v)" by (cases x)
  from Cons.prems x have fresh: "k \<notin> fst ` set acc" by auto
  from Cons.prems x have "distinct (map fst ((acc @ [(k, v)]) @ xs))" by simp
  from Cons.IH [OF this] show ?case
    by (simp add: x map_set_fresh [OF fresh])
qed

text \<open>
  C2. Decoding the encoded Item sequence of a mapping with unique keys gives the mapping
  back: \<^verbatim>\<open>serializableToMap(mapToSerializable(m)) = m\<close>. The Gateway answers
  \<^verbatim>\<open>getItems\<close> with the encoding of the storage's items and the Proxy decodes the answer,
  so the Proxy's \<^verbatim>\<open>getItems\<close> resolves to the mapping the Gateway encoded.
\<close>

theorem codec_round_trip:
  fixes m :: "(Key, Value) js_map"
  assumes "well_formed m"
  shows "serializableToMap (mapToSerializable m) = m \<and> getItems_then (mapToSerializable m) = m"
  using assms insert_all_distinct [of "[]" m]
  by (simp add: well_formed_def serializableToMap_def mapToSerializable_entries getItems_then_def)

theorem codec_round_trip_witness:
  "well_formed [(''a'', ''1''), (''b'', ''2'')] \<and>
   serializableToMap (mapToSerializable [(''a'', ''1''), (''b'', ''2'')]) = [(''a'', ''1''), (''b'', ''2'')]"
proof -
  have wf: "well_formed [(''a'', ''1''), (''b'', ''2'')]"
    by (simp add: well_formed_def)
  from codec_round_trip [OF wf] wf show ?thesis by blast
qed

section \<open>Properties of the storage collaborator\<close>

lemma map_get_map_set: "map_get (map_set k v m) k' = (if k' = k then Some v else map_get m k')"
  by (induction m) auto

lemma map_get_map_delete: "map_get (map_delete k m) k' = (if k' = k then None else map_get m k')"
  by (induction m) (auto simp: map_delete_def)

lemma map_get_None: "map_get m k = None \<longleftrightarrow> k \<notin> fst ` set m"
  by (induction m) (auto split: if_splits)

lemma get_store:
  "get (store k v s) k' fb = (if k' = k then (case v of Str x \<Rightarrow> Str x | _ \<Rightarrow> fb) else get s k' fb)"
  by (cases v) (simp_all add: get_def store_def map_get_map_set map_get_map_delete)

lemma get_remove: "get (remove k s) k' fb = (if k' = k then fb else get s k' fb)"
  by (simp add: get_def remove_def map_get_map_delete)

lemma journal_store: "journal (store k v s) = journal s @ [Store k v]"
  by (simp add: store_def)

lemma journal_remove: "journal (remove k s) = journal s @ [Remove k]"
  by (simp add: remove_def)

lemma get_is_Str_or_fallback: "get s k Undefined \<noteq> Null"
  by (simp add: get_def split: option.splits)

section \<open>Identity seeding\<close>

lemma initTelemetry_journal:
  assumes "distinct [instanceStorageKey ks, firstSessionDateStorageKey ks,
                     lastSessionDateStorageKey ks, currentSessionDateStorageKey ks]"
  shows "writes_since s (initTelemetry ks ses s) =
      (if get s (instanceStorageKey ks) Undefined = Undefined
       then [Store (instanceStorageKey ks) (Str (uuid ses))] else []) @
      (if get s (firstSessionDateStorageKey ks) Undefined = Undefined
       then [Store (firstSessionDateStorageKey ks) (Str (first_date ses))] else []) @
      [Store (lastSessionDateStorageKey ks)
         (if get s (currentSessionDateStorageKey ks) Undefined = Undefined then Null
          else get s (currentSessionDateStorageKey ks) Undefined),
       Store (currentSessionDateStorageKey ks) (Str (current_date ses))]"
  using assms
  by (auto simp add: initTelemetry_def Let_def writes_since_def journal_store get_store)

lemma initTelemetry_get:
  assumes "distinct [instanceStorageKey ks, firstSessionDateStorageKey ks,
                     lastSessionDateStorageKey ks, currentSessionDateStorageKey ks]"
  shows "get (initTelemetry ks ses s) (currentSessionDateStorageKey ks) Undefined = Str (current_date ses)"
    and "get (initTelemetry ks ses s) (lastSessionDateStorageKey ks) Undefined = get s (currentSessionDateStorageKey ks) Undefined"
    and "get (initTelemetry ks ses s) (instanceStorageKey ks) Undefined =
           (if get s (instanceStorageKey ks) Undefined = Undefined then Str (uuid ses) else get s (instanceStorageKey ks) Undefined)"
    and "get (initTelemetry ks ses s) (firstSessionDateStorageKey ks) Undefined =
           (if get s (firstSessionDateStorageKey ks) Undefined = Undefined then Str (first_date ses) else get s (firstSessionDateStorageKey ks) Undefined)"
  using assms get_is_Str_or_fallback [of s "currentSessionDateStorageKey ks"]
  by (auto simp add: initTelemetry_def Let_def get_store split: jsval.splits)

text \<open>
  C3. With four distinct identity keys: \<^verbatim>\<open>initTelemetry\<close> does not write the
  installation id when it is already set, nor the first-session date when it is already
  set, and leaves their values as they are; every run writes the last-session date with
  the previous current-session date (\<^verbatim>\<open>null\<close> when there was none) and then the
  current-session date with the fresh date, so that afterwards the current-session date
  reads as the fresh date and the last-session date reads as the current-session date
  read before the run.
\<close>

theorem initTelemetry_seeds_identity:
  assumes "distinct [instanceStorageKey ks, firstSessionDateStorageKey ks,
                     lastSessionDateStorageKey ks, currentSessionDateStorageKey ks]"
  shows "(get s (instanceStorageKey ks) Undefined \<noteq> Undefined \<longrightarrow>
            (\<forall>v. Store (instanceStorageKey ks) v \<notin> set (writes_since s (initTelemetry ks ses s))) \<and>
            get (initTelemetry ks ses s) (instanceStorageKey ks) Undefined = get s (instanceStorageKey ks) Undefined)
       \<and> (get s (firstSessionDateStorageKey ks) Undefined \<noteq> Undefined \<longrightarrow>
            (\<forall>v. Store (firstSessionDateStorageKey ks) v \<notin> set (writes_since s (initTelemetry ks ses s))) \<and>
            get (initTelemetry ks ses s) (firstSessionDateStorageKey ks) Undefined =
              get s (firstSessionDateStorageKey ks) Undefined)
       \<and> writes_since s (initTelemetry ks ses s) =
            (if get s (instanceStorageKey ks) Undefined = Undefined
             then [Store (instanceStorageKey ks) (Str (uuid ses))] else []) @
            (if get s (firstSessionDateStorageKey ks) Undefined = Undefined
             then [Store (firstSessionDateStorageKey ks) (Str (first_date ses))] else []) @
            [Store (lastSessionDateStorageKey ks)
               (if get s (currentSessionDateStorageKey ks) Undefined = Undefined then Null
                else get s (currentSessionDateStorageKey ks) Undefined),
             Store (currentSessionDateStorageKey ks) (Str (current_date ses))]
       \<and> get (initTelemetry ks ses s) (currentSessionDateStorageKey ks) Undefined = Str (current_date ses)
       \<and> get (initTelemetry ks ses s) (lastSessionDateStorageKey ks) Undefined =
            get s (currentSessionDateStorageKey ks) Undefined"
proof -
  note j = initTelemetry_journal [OF assms, of s ses]
  note g = initTelemetry_get [OF assms, of ses s]
  from assms have ne:
    "instanceStorageKey ks \<noteq> lastSessionDateStorageKey ks"
    "instanceStorageKey ks \<noteq> currentSessionDateStorageKey ks"
    "instanceStorageKey ks \<noteq> firstSessionDateStorageKey ks"
    "firstSessionDateStorageKey ks \<noteq> lastSessionDateStorageKey ks"
    "firstSessionDateStorageKey ks \<noteq> currentSessionDateStorageKey ks"
    by auto
  have a: "\<forall>v. Store (instanceStorageKey ks) v \<notin> set (writes_since s (initTelemetry ks ses s))"
    if "get s (instanceStorageKey ks) Undefined \<noteq> Undefined"
    using that ne by (simp add: j)
  have b: "\<forall>v. Store (firstSessionDateStorageKey ks) v \<notin> set (writes_since s (initTelemetry ks ses s))"
    if "get s (firstSessionDateStorageKey ks) Undefined \<noteq> Undefined"
    using that ne by (auto simp add: j)
  have a': "get (initTelemetry ks ses s) (instanceStorageKey ks) Undefined = get s (instanceStorageKey ks) Undefined"
    if "get s (instanceStorageKey ks) Undefined \<noteq> Undefined"
    using that g(3) by simp
  have b': "get (initTelemetry ks ses s) (firstSessionDateStorageKey ks) Undefined =
              get s (firstSessionDateStorageKey ks) Undefined"
    if "get s (firstSessionDateStorageKey ks) Undefined \<noteq> Undefined"
    using that g(4) by simp
  show ?thesis
    using a a' b b' j g(1) g(2) by blast
qed

theorem initTelemetry_seeds_identity_witness:
  "distinct [instanceStorageKey sample_keys, firstSessionDateStorageKey sample_keys,
             lastSessionDateStorageKey sample_keys, currentSessionDateStorageKey sample_keys]
   \<and> get sample_storage (instanceStorageKey sample_keys) Undefined = Str ''id-0''
   \<and> get sample_storage (firstSessionDateStorageKey sample_keys) Undefined = Str ''Mon''
   \<and> writes_since sample_storage (initTelemetry sample_keys sample_session sample_storage) =
        [Store ''telemetry.lastSessionDate'' (Str ''Tue''), Store ''telemetry.currentSessionDate'' (Str ''Wed'')]
   \<and> get (initTelemetry sample_keys sample_session sample_storage) ''telemetry.instanceId'' Undefined = Str ''id-0''
   \<and> get (initTelemetry sample_keys sample_session sample_storage) ''telemetry.firstSessionDate'' Undefined = Str ''Mon''
   \<and> get (initTelemetry sample_keys sample_session sample_storage) ''telemetry.currentSessionDate'' Undefined = Str ''Wed''
   \<and> get (initTelemetry sample_keys sample_session sample_storage) ''telemetry.lastSessionDate'' Undefined = Str ''Tue''"
proof -
  have d: "distinct [instanceStorageKey sample_keys, firstSessionDateStorageKey sample_keys,
             lastSessionDateStorageKey sample_keys, currentSessionDateStorageKey sample_keys]"
    by (simp add: sample_keys_def)
  have i: "get sample_storage (instanceStorageKey sample_keys) Undefined = Str ''id-0''"
    and f: "get sample_storage (firstSessionDateStorageKey sample_keys) Undefined = Str ''Mon''"
    and c: "get sample_storage (currentSessionDateStorageKey sample_keys) Undefined = Str ''Tue''"
    by (simp_all add: sample_keys_def sample_storage_def get_def)
  from initTelemetry_seeds_identity [OF d, of sample_storage sample_session] d i f c
  show ?thesis
    by (simp add: sample_keys_def sample_session_def)
qed

section \<open>The Gateway's updateItems\<close>

lemma journal_inserts:
  "journal (foldl (\<lambda>st (k, v). store k (Str v) st) s ins) = journal s @ map (\<lambda>(k, v). Store k (Str v)) ins"
  by (induction ins arbitrary: s) (auto simp: journal_store)

lemma journal_removes:
  "journal (foldl (\<lambda>st k. remove k st) s dels) = journal s @ map Remove dels"
  by (induction dels arbitrary: s) (auto simp: journal_remove)

lemma get_removes:
  "get (foldl (\<lambda>st k. remove k st) s dels) k fb = (if k \<in> set dels then fb else get s k fb)"
  by (induction dels arbitrary: s) (auto simp: get_remove)

lemma get_inserts:
  "get (foldl (\<lambda>st (k, v). store k (Str v) st) s ins) k fb =
     (case map_of (rev ins) k of Some v \<Rightarrow> Str v | None \<Rightarrow> get s k fb)"
  by (induction ins rule: rev_induct) (auto simp: get_store)

lemma get_Undefined_iff: "get s k Undefined = Undefined \<longleftrightarrow> k \<notin> fst ` set (storage_items s)"
  by (simp add: get_def storage_items_def map_get_None [symmetric] split: option.splits)

lemma writes_since_append: "journal s' = journal s @ ws \<Longrightarrow> writes_since s s' = ws"
  by (simp add: writes_since_def)

lemma updateItems_body_journal:
  "journal (updateItems_body r s) = journal s @
     map (\<lambda>(k, v). Store k (Str v)) (case insert_items r of None \<Rightarrow> [] | Some ins \<Rightarrow> ins) @
     map Remove (case delete_keys r of None \<Rightarrow> [] | Some dels \<Rightarrow> dels)"
  by (simp add: updateItems_body_def Let_def journal_inserts journal_removes split: option.splits)

lemma updateItems_body_get:
  "get (updateItems_body r s) k fb =
     (if k \<in> set (case delete_keys r of None \<Rightarrow> [] | Some dels \<Rightarrow> dels) then fb
      else case map_of (rev (case insert_items r of None \<Rightarrow> [] | Some ins \<Rightarrow> ins)) k of
             Some v \<Rightarrow> Str v
           | None \<Rightarrow> get s k fb)"
  by (simp add: updateItems_body_def Let_def get_inserts get_removes split: option.splits)

lemma body_updateItems:
  "body (rid, ''updateItems'', ArgRequest r) g =
     g\<lparr>storage := updateItems_body r (storage g), replies := replies g @ [(rid, Done)]\<rparr>"
  by (simp add: body_def)

lemma call_ready: "whenReady g = Fulfilled \<Longrightarrow> is_command c \<Longrightarrow> call rid c a g = body (rid, c, a) g"
  by (simp add: call_def)

text \<open>
  C4. \<^verbatim>\<open>updateItems\<close> on a ready Gateway hands the storage every insert of the request,
  in order, and only then every deletion; so a key of the delete set is absent from the
  storage when the call completes, also when the insert set holds it too.
\<close>

theorem updateItems_inserts_then_deletes:
  assumes "whenReady g = Fulfilled"
  shows "writes_since (storage g) (storage (call rid ''updateItems'' (ArgRequest r) g)) =
           map (\<lambda>(k, v). Store k (Str v)) (case insert_items r of None \<Rightarrow> [] | Some ins \<Rightarrow> ins) @
           map Remove (case delete_keys r of None \<Rightarrow> [] | Some dels \<Rightarrow> dels)
         \<and> (\<forall>dels k. delete_keys r = Some dels \<and> k \<in> set dels \<longrightarrow>
               get (storage (call rid ''updateItems'' (ArgRequest r) g)) k Undefined = Undefined \<and>
               k \<notin> fst ` set (storage_items (storage (call rid ''updateItems'' (ArgRequest r) g))))"
proof -
  have c: "storage (call rid ''updateItems'' (ArgRequest r) g) = updateItems_body r (storage g)"
    using assms by (simp add: call_ready is_command_def body_updateItems)
  have absent: "get (updateItems_body r (storage g)) k Undefined = Undefined"
    if "delete_keys r = Some dels" "k \<in> set dels" for dels k
    using that by (simp add: updateItems_body_get)
  show ?thesis
    unfolding c
    using absent
    by (auto simp: writes_since_append [OF updateItems_body_journal] get_Undefined_iff [symmetric])
qed

theorem updateItems_inserts_then_deletes_witness:
  "whenReady ((new_gateway sample_storage)\<lparr>whenReady := Fulfilled\<rparr>) = Fulfilled
   \<and> writes_since sample_storage
        (storage (call 1 ''updateItems''
           (ArgRequest \<lparr>insert_items = Some [(''k'', ''v''), (''c'', ''3'')], delete_keys = Some [''k'', ''a'']\<rparr>)
           ((new_gateway sample_storage)\<lparr>whenReady := Fulfilled\<rparr>))) =
        [Store ''k'' (Str ''v''), Store ''c'' (Str ''3''), Remove ''k'', Remove ''a'']
   \<and> get (storage (call 1 ''updateItems''
           (ArgRequest \<lparr>insert_items = Some [(''k'', ''v''), (''c'', ''3'')], delete_keys = Some [''k'', ''a'']\<rparr>)
           ((new_gateway sample_storage)\<lparr>whenReady := Fulfilled\<rparr>))) ''k'' Undefined = Undefined"
proof -
  have r: "whenReady ((new_gateway sample_storage)\<lparr>whenReady := Fulfilled\<rparr>) = Fulfilled"
    by simp
  from updateItems_inserts_then_deletes [OF r, of 1
      "\<lparr>insert_items = Some [(''k'', ''v''), (''c'', ''3'')], delete_keys = Some [''k'', ''a'']\<rparr>"]
  show ?thesis
    by (simp add: new_gateway_def)
qed

section \<open>serializeEvents\<close>

lemma map_set_keys:
  "map fst (map_set k v m) = (if k \<in> fst ` set m then map fst m else map fst m @ [k])"
  by (induction m) force+

lemma map_set_values: "(a, b) \<in> set (map_set k v m) \<Longrightarrow> (a, b) = (k, v) \<or> (a, b) \<in> set m"
  by (induction m) (auto split: if_splits)

lemma reread_keys:
  "fst ` set (foldl (\<lambda>its e. map_set (key e) (f (key e)) its) acc es) = fst ` set acc \<union> key ` set es"
proof (induction es arbitrary: acc)
  case Nil
  then show ?case by simp
next
  case (Cons e es)
  have "fst ` set (map_set (key e) (f (key e)) acc) = insert (key e) (fst ` set acc)"
    using map_set_keys [of "key e" "f (key e)" acc]
    by (metis (no_types, lifting) insert_absorb list.set_map set_append list.simps(15) Un_insert_right
        sup_bot.right_neutral empty_set)
  with Cons.IH [of "map_set (key e) (f (key e)) acc"] show ?case by auto
qed

lemma reread_distinct:
  "distinct (map fst acc) \<Longrightarrow>
   distinct (map fst (foldl (\<lambda>its e. map_set (key e) (f (key e)) its) acc es))"
proof (induction es arbitrary: acc)
  case Nil
  then show ?case by simp
next
  case (Cons e es)
  from Cons.prems have "distinct (map fst (map_set (key e) (f (key e)) acc))"
    by (simp add: map_set_keys)
  from Cons.IH [OF this] show ?case by simp
qed

lemma reread_values:
  "(\<And>k v. (k, v) \<in> set acc \<Longrightarrow> v = f k) \<Longrightarrow>
   (k, v) \<in> set (foldl (\<lambda>its e. map_set (key e) (f (key e)) its) acc es) \<Longrightarrow> v = f k"
proof (induction es arbitrary: acc)
  case Nil
  then show ?case by simp
next
  case (Cons e es)
  have "\<And>a b. (a, b) \<in> set (map_set (key e) (f (key e)) acc) \<Longrightarrow> b = f a"
    using Cons.prems(1) map_set_values by fastforce
  from Cons.IH [OF this] Cons.prems(2) show ?case by simp
qed

lemma items_serializeEvents:
  "items (serializeEvents s events) =
     foldl (\<lambda>its e. map_set (key e) (get s (key e) Undefined) its) [] events"
  by (simp add: serializeEvents_def mapToSerializable_entries)

lemma serializeEvents_keys: "fst ` set (items (serializeEvents s events)) = key ` set events"
  by (simp add: items_serializeEvents reread_keys [where f = "\<lambda>k. get s k Undefined"])

lemma serializeEvents_distinct: "distinct (map fst (items (serializeEvents s events)))"
  by (simp add: items_serializeEvents reread_distinct [where f = "\<lambda>k. get s k Undefined"])

lemma serializeEvents_values:
  "(k, v) \<in> set (items (serializeEvents s events)) \<Longrightarrow> v = get s k Undefined"
  using reread_values [where f = "\<lambda>k. get s k Undefined" and acc = "[]"]
  by (simp add: items_serializeEvents)

text \<open>
  C10. A key whose raw change event is among the flushed events and that is no longer in
  the storage when \<^verbatim>\<open>serializeEvents\<close> runs reads as \<^verbatim>\<open>undefined\<close>, the result of
  \<^verbatim>\<open>get\<close> without a fallback, and the serialized event holds the key paired with that
  value: the key is not omitted.
\<close>

theorem serializeEvents_keeps_deleted_key:
  assumes "e \<in> set events" and "key e \<notin> fst ` set (storage_items s)"
  shows "get s (key e) Undefined = Undefined \<and>
         (key e, Undefined) \<in> set (items (serializeEvents s events))"
proof -
  have missing: "get s (key e) Undefined = Undefined"
    using assms(2) by (simp add: get_Undefined_iff)
  from assms(1) have "key e \<in> fst ` set (items (serializeEvents s events))"
    by (simp add: serializeEvents_keys)
  then obtain v where v: "(key e, v) \<in> set (items (serializeEvents s events))"
    by auto
  from serializeEvents_values [OF v] missing v show ?thesis by simp
qed

theorem serializeEvents_keeps_deleted_key_witness:
  "\<lparr>key = ''gone''\<rparr> \<in> set [\<lparr>key = ''a''\<rparr>, \<lparr>key = ''gone''\<rparr>]
   \<and> key \<lparr>key = ''gone''\<rparr> \<notin> fst ` set (storage_items sample_storage)
   \<and> (''gone'', Undefined) \<in> set (items (serializeEvents sample_storage [\<lparr>key = ''a''\<rparr>, \<lparr>key = ''gone''\<rparr>]))
   \<and> items (serializeEvents sample_storage [\<lparr>key = ''a''\<rparr>, \<lparr>key = ''gone''\<rparr>]) =
        [(''a'', Str ''1''), (''gone'', Undefined)]"
proof -
  have m: "\<lparr>key = ''gone''\<rparr> \<in> set [\<lparr>key = ''a''\<rparr>, \<lparr>key = ''gone''\<rparr>]"
    by simp
  have a: "key \<lparr>key = ''gone''\<rparr> \<notin> fst ` set (storage_items sample_storage)"
    by (simp add: storage_items_def sample_storage_def)
  have v: "items (serializeEvents sample_storage [\<lparr>key = ''a''\<rparr>, \<lparr>key = ''gone''\<rparr>]) =
        [(''a'', Str ''1''), (''gone'', Undefined)]"
    by (simp add: items_serializeEvents get_def sample_storage_def)
  from serializeEvents_keeps_deleted_key [OF m a] m a v show ?thesis by simp
qed


section \<open>Debounced change propagation\<close>

lemma body_debounce:
  "pending (body q g) = pending g" "timer (body q g) = timer g" "now (body q g) = now g"
  "fired (body q g) = fired g" "listening (body q g) = listening g"
  "whenReady (body q g) = whenReady g" "thrown (body q g) = thrown g"
  by (cases q; simp add: body_def split: arg.splits)+

lemma serve_debounce:
  "pending (serve qs g) = pending g" "timer (serve qs g) = timer g" "now (serve qs g) = now g"
  "fired (serve qs g) = fired g" "listening (serve qs g) = listening g"
  "whenReady (serve qs g) = whenReady g" "thrown (serve qs g) = thrown g"
  unfolding serve_def
  by (induction qs arbitrary: g; simp add: body_debounce)+

lemma call_debounce:
  "pending (call rid c a g) = pending g" "timer (call rid c a g) = timer g" "now (call rid c a g) = now g"
  "fired (call rid c a g) = fired g" "listening (call rid c a g) = listening g"
  by (simp_all add: call_def body_debounce split: ready.splits)

lemma init_settled_debounce:
  "pending (init_settled ks f ses g) = pending g" "timer (init_settled ks f ses g) = timer g"
  "now (init_settled ks f ses g) = now g" "fired (init_settled ks f ses g) = fired g"
  "listening g \<Longrightarrow> listening (init_settled ks f ses g)"
  by (simp_all add: init_settled_def Let_def serve_debounce registerListeners_def
      split: ready.splits option.splits)

lemma advance_in_window:
  "timer g = Some (now g + left) \<Longrightarrow> dt < left \<Longrightarrow> advance dt g = g\<lparr>now := now g + dt\<rparr>"
  by (simp add: advance_def Let_def)

lemma advance_idle: "timer g = None \<Longrightarrow> advance dt g = g\<lparr>now := now g + dt\<rparr>"
  by (simp add: advance_def Let_def)

lemma run_Cons: "run ks (x # xs) g = run ks xs (react ks g x)"
  by (simp add: run_def)

lemma run_append: "run ks (xs @ ys) g = run ks ys (run ks xs g)"
  by (simp add: run_def)

lemma run_Nil: "run ks [] g = g"
  by (simp add: run_def)

lemma window_accumulates:
  assumes "within_window left ins" and "left \<le> STORAGE_CHANGE_DEBOUNCE_TIME"
      and "listening g" and "pending g = Some acc" and "timer g = Some (now g + left)"
  shows "listening (run ks ins g) \<and> pending (run ks ins g) = Some (acc @ raw_events ins) \<and>
         fired (run ks ins g) = fired g \<and>
         (\<exists>left'. left' \<le> STORAGE_CHANGE_DEBOUNCE_TIME \<and> timer (run ks ins g) = Some (now (run ks ins g) + left'))"
  using assms
proof (induction ins arbitrary: left g acc)
  case Nil
  then show ?case by (auto simp: run_Nil)
next
  case (Cons x ins)
  obtain dt i where x: "x = (dt, i)" by (cases x)
  show ?case
  proof (cases i)
    case (StorageChange e)
    from Cons.prems x StorageChange have dt: "dt < left"
      and w: "within_window STORAGE_CHANGE_DEBOUNCE_TIME ins" by simp_all
    let ?g = "react ks g x"
    have a: "advance dt g = g\<lparr>now := now g + dt\<rparr>"
      using advance_in_window [OF Cons.prems(5) dt] .
    have l: "listening ?g" and p: "pending ?g = Some ((acc @ [e]) )"
      and t: "timer ?g = Some (now ?g + STORAGE_CHANGE_DEBOUNCE_TIME)" and f: "fired ?g = fired g"
      using Cons.prems(3,4)
      by (simp_all add: x StorageChange a onDidChangeStorage_def debounce_input_def merger_def Let_def)
    from Cons.IH [OF w order_refl l p t] f show ?thesis
      by (simp add: run_Cons x StorageChange)
  next
    case (InitSettled failure ses)
    from Cons.prems x InitSettled have dt: "dt < left" and w: "within_window (left - dt) ins" by simp_all
    let ?g = "react ks g x"
    have a: "advance dt g = g\<lparr>now := now g + dt\<rparr>"
      using advance_in_window [OF Cons.prems(5) dt] .
    have l: "listening ?g" and p: "pending ?g = Some acc"
      and t: "timer ?g = Some (now ?g + (left - dt))" and f: "fired ?g = fired g"
      using Cons.prems(3,4,5) dt
      by (simp_all add: x InitSettled a init_settled_debounce)
    from Cons.prems(2) have "left - dt \<le> STORAGE_CHANGE_DEBOUNCE_TIME" by simp
    from Cons.IH [OF w this l p t] f show ?thesis
      by (simp add: run_Cons x InitSettled)
  next
    case (Call rid c a')
    from Cons.prems x Call have dt: "dt < left" and w: "within_window (left - dt) ins" by simp_all
    let ?g = "react ks g x"
    have a: "advance dt g = g\<lparr>now := now g + dt\<rparr>"
      using advance_in_window [OF Cons.prems(5) dt] .
    have l: "listening ?g" and p: "pending ?g = Some acc"
      and t: "timer ?g = Some (now ?g + (left - dt))" and f: "fired ?g = fired g"
      using Cons.prems(3,4,5) dt
      by (simp_all add: x Call a call_debounce)
    from Cons.prems(2) have "left - dt \<le> STORAGE_CHANGE_DEBOUNCE_TIME" by simp
    from Cons.IH [OF w this l p t] f show ?thesis
      by (simp add: run_Cons x Call)
  next
    case Idle
    from Cons.prems x Idle have dt: "dt < left" and w: "within_window (left - dt) ins" by simp_all
    let ?g = "react ks g x"
    have a: "advance dt g = g\<lparr>now := now g + dt\<rparr>"
      using advance_in_window [OF Cons.prems(5) dt] .
    have l: "listening ?g" and p: "pending ?g = Some acc"
      and t: "timer ?g = Some (now ?g + (left - dt))" and f: "fired ?g = fired g"
      using Cons.prems(3,4,5) dt
      by (simp_all add: x Idle a)
    from Cons.prems(2) have "left - dt \<le> STORAGE_CHANGE_DEBOUNCE_TIME" by simp
    from Cons.IH [OF w this l p t] f show ?thesis
      by (simp add: run_Cons x Idle)
  qed
qed

lemma flush_when_due:
  assumes "pending g = Some evs" and "evs \<noteq> []" and "timer g = Some (now g + left)" and "left \<le> dt"
  shows "advance dt g =
           g\<lparr>now := now g + dt, pending := None, timer := None,
             fired := fired g @ [serializeEvents (storage g) evs]\<rparr>"
  using assms by (simp add: advance_def onTimeout_def debounce_clear_def Let_def)


text \<open>
  C5. On a listening Gateway whose debouncer is idle, a raw change event followed by
  turns that all fall within the debounce window (further raw events, calls that change
  the storage) fires nothing during the window; once the quiet period has passed, exactly
  one change event is fired. Its items have one entry per distinct key of the raw events
  of the window, and each value is what \<^verbatim>\<open>get\<close> reads from the storage at the time of
  the flush. The debouncer is idle again afterwards.
\<close>

theorem debounce_coalesces_window:
  fixes g :: gateway
  defines "window dt e rest \<equiv> (dt, StorageChange e) # rest"
  assumes "listening g" and "pending g = None" and "timer g = None"
      and "within_window STORAGE_CHANGE_DEBOUNCE_TIME rest"
      and "STORAGE_CHANGE_DEBOUNCE_TIME \<le> quiet"
  shows "fired (run ks (window dt e rest) g) = fired g
       \<and> fired (run ks (window dt e rest @ [(quiet, Idle)]) g) =
           fired g @ [serializeEvents (storage (run ks (window dt e rest) g)) (e # raw_events rest)]
       \<and> distinct (map fst (items (serializeEvents (storage (run ks (window dt e rest) g)) (e # raw_events rest))))
       \<and> fst ` set (items (serializeEvents (storage (run ks (window dt e rest) g)) (e # raw_events rest))) =
           key ` set (e # raw_events rest)
       \<and> (\<forall>(k, v) \<in> set (items (serializeEvents (storage (run ks (window dt e rest) g)) (e # raw_events rest))).
             v = get (storage (run ks (window dt e rest) g)) k Undefined)
       \<and> pending (run ks (window dt e rest @ [(quiet, Idle)]) g) = None
       \<and> timer (run ks (window dt e rest @ [(quiet, Idle)]) g) = None"
proof -
  let ?g0 = "react ks g (dt, StorageChange e)"
  let ?g1 = "run ks rest ?g0"
  have a: "advance dt g = g\<lparr>now := now g + dt\<rparr>"
    using advance_idle [OF assms(4)] .
  have l: "listening ?g0" and p: "pending ?g0 = Some ([] @ [e])"
    and t: "timer ?g0 = Some (now ?g0 + STORAGE_CHANGE_DEBOUNCE_TIME)" and f: "fired ?g0 = fired g"
    using assms(2,3)
    by (simp_all add: a onDidChangeStorage_def debounce_input_def merger_def Let_def)
  from window_accumulates [OF assms(5) order_refl l p t, of ks] f
  obtain left' where acc: "pending ?g1 = Some (e # raw_events rest)" and f1: "fired ?g1 = fired g"
    and left': "left' \<le> STORAGE_CHANGE_DEBOUNCE_TIME" and t1: "timer ?g1 = Some (now ?g1 + left')"
    by auto
  from left' assms(6) have due: "left' \<le> quiet" by simp
  have flush: "advance quiet ?g1 =
      ?g1\<lparr>now := now ?g1 + quiet, pending := None, timer := None,
           fired := fired ?g1 @ [serializeEvents (storage ?g1) (e # raw_events rest)]\<rparr>"
    using flush_when_due [OF acc _ t1 due] by simp
  have r1: "run ks (window dt e rest) g = ?g1"
    by (simp add: window_def run_Cons)
  have r2: "run ks (window dt e rest @ [(quiet, Idle)]) g = advance quiet ?g1"
    by (simp add: run_append r1 run_Cons run_Nil)
  show ?thesis
    unfolding r2 flush unfolding r1
    using f1 serializeEvents_distinct serializeEvents_keys serializeEvents_values
    by auto
qed


theorem debounce_coalesces_window_witness:
  "listening sample_gateway \<and> pending sample_gateway = None \<and> timer sample_gateway = None
   \<and> within_window STORAGE_CHANGE_DEBOUNCE_TIME sample_burst
   \<and> STORAGE_CHANGE_DEBOUNCE_TIME \<le> 100
   \<and> fired (run sample_keys (((0, StorageChange \<lparr>key = ''a''\<rparr>) # sample_burst) @ [(100, Idle)]) sample_gateway) =
        [ItemsChangeEvent [(''a'', Str ''9''), (''b'', Undefined)]]"
proof -
  have l: "listening sample_gateway" and p: "pending sample_gateway = None"
    and t: "timer sample_gateway = None"
    by (simp_all add: sample_gateway_def new_gateway_def)
  have w: "within_window STORAGE_CHANGE_DEBOUNCE_TIME sample_burst"
    by (simp add: sample_burst_def STORAGE_CHANGE_DEBOUNCE_TIME_def)
  have q: "STORAGE_CHANGE_DEBOUNCE_TIME \<le> 100"
    by (simp add: STORAGE_CHANGE_DEBOUNCE_TIME_def)
  have v: "fired sample_gateway @
             [serializeEvents
                (storage (run sample_keys ((0, StorageChange \<lparr>key = ''a''\<rparr>) # sample_burst) sample_gateway))
                (\<lparr>key = ''a''\<rparr> # raw_events sample_burst)] =
           [ItemsChangeEvent [(''a'', Str ''9''), (''b'', Undefined)]]"
    by code_simp
  note inst = debounce_coalesces_window [OF l p t w q, of sample_keys 0 "\<lparr>key = ''a''\<rparr>"]
  from inst [THEN conjunct2, THEN conjunct1] v
  have "fired (run sample_keys (((0, StorageChange \<lparr>key = ''a''\<rparr>) # sample_burst) @ [(100, Idle)]) sample_gateway) =
        [ItemsChangeEvent [(''a'', Str ''9''), (''b'', Undefined)]]"
    by (rule trans)
  with l p t w q show ?thesis by blast
qed

section \<open>The Proxy\<close>

text \<open>
  C6. The Proxy's \<^verbatim>\<open>updateItems\<close> on a request whose insert set and delete set are both
  absent or empty issues no remote call and returns a resolved promise; on any other
  request it issues exactly one remote \<^verbatim>\<open>updateItems\<close> call, whose argument holds the
  serialized insert Items and the delete keys, and returns the promise of that call.
\<close>

theorem proxy_updateItems_remote_calls:
  "updateItems request p =
     (if is_empty_request request then (p, ResolvedPromise)
      else (p\<lparr>calls := calls p @ [serialized_call request]\<rparr>, ChannelPromise (serialized_call request)))"
proof (cases "insert_map request")
  case None
  then show ?thesis
    by (cases "delete_set request")
       (simp_all add: updateItems_def is_empty_request_def serialized_call_def Let_def)
next
  case (Some m)
  then show ?thesis
    by (cases "delete_set request"; cases m)
       (simp_all add: updateItems_def is_empty_request_def serialized_call_def Let_def map_size_def)
qed

theorem proxy_updateItems_remote_calls_witness:
  "is_empty_request \<lparr>insert_map = Some [], delete_set = None\<rparr>
   \<and> updateItems \<lparr>insert_map = Some [], delete_set = None\<rparr> new_proxy = (new_proxy, ResolvedPromise)
   \<and> calls (fst (updateItems \<lparr>insert_map = Some [(''a'', ''1'')], delete_set = Some [''b'']\<rparr> new_proxy)) =
       [RemoteCall ''updateItems'' (ArgRequest \<lparr>insert_items = Some [(''a'', ''1'')], delete_keys = Some [''b'']\<rparr>)]"
  using proxy_updateItems_remote_calls [of "\<lparr>insert_map = Some [], delete_set = None\<rparr>" new_proxy]
        proxy_updateItems_remote_calls [of "\<lparr>insert_map = Some [(''a'', ''1'')], delete_set = Some [''b'']\<rparr>" new_proxy]
  by (simp add: is_empty_request_def serialized_call_def mapToSerializable_entries values_of_members new_proxy_def)

lemma teardown_all_closed_form:
  "ops \<noteq> [] \<Longrightarrow>
   teardown_all ops p =
     p\<lparr>onDidChangeItemsOnMainListener := Unsubscribed, disposed := (disposed p \<or> Dispose \<in> set ops)\<rparr>"
proof (induction ops rule: rev_induct)
  case Nil
  then show ?case by simp
next
  case (snoc x xs)
  show ?case
  proof (cases "xs = []")
    case True
    then show ?thesis
      by (cases x) (simp_all add: teardown_all_def close_def dispose_def dispose_listener_def Let_def)
  next
    case False
    from snoc.IH [OF False] show ?thesis
      by (cases x) (auto simp add: teardown_all_def close_def dispose_def dispose_listener_def Let_def)
  qed
qed

text \<open>
  C9. \<^verbatim>\<open>close()\<close> disposes the subscription and changes nothing else, so it issues no
  remote call, and returns a resolved promise; a remote event delivered after
  \<^verbatim>\<open>close()\<close> or after \<^verbatim>\<open>dispose()\<close> changes nothing. Either operation applied twice
  in a row gives what it gives once, and any non-empty sequence of the two leaves the
  subscription disposed, with \<^verbatim>\<open>disposed\<close> set once \<^verbatim>\<open>dispose()\<close> was among them.
\<close>

theorem proxy_close_unsubscribes:
  "fst (close p) = p\<lparr>onDidChangeItemsOnMainListener := Unsubscribed\<rparr>
   \<and> snd (close p) = ResolvedPromise
   \<and> calls (fst (close p)) = calls p
   \<and> deliver e (fst (close p)) = Inr (fst (close p))
   \<and> deliver e (dispose p) = Inr (dispose p)
   \<and> teardown_step (teardown_step p x) x = teardown_step p x
   \<and> (ops \<noteq> [] \<longrightarrow>
        teardown_all ops p =
          p\<lparr>onDidChangeItemsOnMainListener := Unsubscribed, disposed := (disposed p \<or> Dispose \<in> set ops)\<rparr>)"
proof -
  have "teardown_step (teardown_step p x) x = teardown_step p x"
    by (cases x) (simp_all add: close_def dispose_def dispose_listener_def Let_def)
  then show ?thesis
    using teardown_all_closed_form [of ops p]
    by (simp add: close_def dispose_def dispose_listener_def deliver_def Let_def)
qed

theorem proxy_close_unsubscribes_witness:
  "[Close, Dispose, Close, Dispose] \<noteq> []
   \<and> teardown_all [Close, Dispose, Close, Dispose] new_proxy =
       \<lparr>onDidChangeItemsOnMainListener = Unsubscribed, disposed = True, external = [], calls = []\<rparr>
   \<and> deliver (WObject [(''items'', WArray [WArray [WString ''a'', WString ''1'']])]) (fst (close new_proxy)) =
       Inr (fst (close new_proxy))
   \<and> deliver (WObject [(''items'', WArray [WArray [WString ''a'', WString ''1'']])]) new_proxy =
       Inr (new_proxy\<lparr>external := [StorageItemsChangeEvent [(WString ''a'', WString ''1'')]]\<rparr>)"
proof -
  have live: "deliver (WObject [(''items'', WArray [WArray [WString ''a'', WString ''1'']])]) new_proxy =
       Inr (new_proxy\<lparr>external := [StorageItemsChangeEvent [(WString ''a'', WString ''1'')]]\<rparr>)"
    by code_simp
  from proxy_close_unsubscribes [of new_proxy "WObject [(''items'', WArray [WArray [WString ''a'', WString ''1'']])]" Close
         "[Close, Dispose, Close, Dispose]"] live
  show ?thesis by (simp add: new_proxy_def close_def dispose_listener_def)
qed

section \<open>Calls and initialization\<close>

lemma body_cong:
  "storage g = storage h \<Longrightarrow> replies g = replies h \<Longrightarrow>
   storage (body q g) = storage (body q h) \<and> replies (body q g) = replies (body q h)"
  by (cases q) (simp add: body_def split: arg.splits)

lemma serve_Cons: "serve (q # qs) g = serve qs (body q g)"
  by (simp add: serve_def)

lemma serve_Nil: "serve [] g = g"
  by (simp add: serve_def)

lemma serve_append: "serve (xs @ ys) g = serve ys (serve xs g)"
  by (simp add: serve_def)

lemma serve_cong:
  "storage g = storage h \<Longrightarrow> replies g = replies h \<Longrightarrow>
   storage (serve qs g) = storage (serve qs h) \<and> replies (serve qs g) = replies (serve qs h)"
proof (induction qs arbitrary: g h)
  case Nil
  then show ?case by (simp add: serve_Nil)
next
  case (Cons q qs)
  from body_cong [OF Cons.prems, of q] Cons.IH [of "body q g" "body q h"]
  show ?case by (simp add: serve_Cons)
qed

lemma body_replies: "\<exists>r. replies (body (rid, c, a) g) = replies g @ [(rid, r)]"
  by (simp add: body_def split: arg.splits)

lemma serve_replies: "map fst (replies (serve qs g)) = map fst (replies g) @ map fst qs"
proof (induction qs arbitrary: g)
  case Nil
  then show ?case by (simp add: serve_Nil)
next
  case (Cons q qs)
  obtain rid c a where q: "q = (rid, c, a)" by (cases q)
  from body_replies [of rid c a g] obtain r where "replies (body q g) = replies g @ [(rid, r)]"
    unfolding q by blast
  with Cons.IH [of "body q g"] show ?case by (simp add: serve_Cons q)
qed

lemma onTimeout_fields:
  "storage (onTimeout g) = storage g" "replies (onTimeout g) = replies g"
  "whenReady (onTimeout g) = whenReady g" "listening (onTimeout g) = listening g"
  "thrown (onTimeout g) = thrown g" "logged (onTimeout g) = logged g"
  "unexpected (onTimeout g) = unexpected g"
  by (simp_all add: onTimeout_def debounce_clear_def Let_def split: option.splits)

lemma advance_fields:
  "storage (advance dt g) = storage g" "replies (advance dt g) = replies g"
  "whenReady (advance dt g) = whenReady g" "listening (advance dt g) = listening g"
  "thrown (advance dt g) = thrown g" "logged (advance dt g) = logged g"
  "unexpected (advance dt g) = unexpected g"
  by (simp_all add: advance_def Let_def onTimeout_fields split: option.splits)

lemma onDidChangeStorage_fields:
  "storage (onDidChangeStorage e g) = storage g" "replies (onDidChangeStorage e g) = replies g"
  "whenReady (onDidChangeStorage e g) = whenReady g" "listening (onDidChangeStorage e g) = listening g"
  "thrown (onDidChangeStorage e g) = thrown g"
  by (simp_all add: onDidChangeStorage_def Let_def)

lemma requests_append: "requests (xs @ ys) = requests xs @ requests ys"
  by (induction xs rule: requests.induct) simp_all

lemma pending_phase:
  assumes "unsettled ins" and "whenReady g = Pending q"
  shows "whenReady (run ks ins g) = Pending (q @ requests ins) \<and> storage (run ks ins g) = storage g \<and>
         replies (run ks ins g) = replies g \<and> listening (run ks ins g) = listening g"
  using assms
proof (induction ins arbitrary: g q)
  case Nil
  then show ?case by (simp add: run_Nil)
next
  case (Cons x ins)
  obtain dt i where x: "x = (dt, i)" by (cases x)
  show ?case
  proof (cases i)
    case (InitSettled failure ses)
    with Cons.prems x show ?thesis by simp
  next
    case (Call rid c a)
    from Cons.prems x Call have u: "unsettled ins" by simp
    let ?g = "react ks g x"
    have w: "whenReady ?g = Pending (q @ (if is_command c then [(rid, c, a)] else []))"
      and s: "storage ?g = storage g" and r: "replies ?g = replies g" and l: "listening ?g = listening g"
      using Cons.prems(2)
      by (simp_all add: x Call call_def advance_fields)
    from Cons.IH [OF u w] s r l show ?thesis
      by (simp add: run_Cons x Call)
  next
    case (StorageChange e)
    from Cons.prems x StorageChange have u: "unsettled ins" by simp
    let ?g = "react ks g x"
    have w: "whenReady ?g = Pending q"
      and s: "storage ?g = storage g" and r: "replies ?g = replies g" and l: "listening ?g = listening g"
      using Cons.prems(2)
      by (simp_all add: x StorageChange onDidChangeStorage_fields advance_fields)
    from Cons.IH [OF u w] s r l show ?thesis
      by (simp add: run_Cons x StorageChange)
  next
    case Idle
    from Cons.prems x Idle have u: "unsettled ins" by simp
    let ?g = "react ks g x"
    have w: "whenReady ?g = Pending q"
      and s: "storage ?g = storage g" and r: "replies ?g = replies g" and l: "listening ?g = listening g"
      using Cons.prems(2)
      by (simp_all add: x Idle advance_fields)
    from Cons.IH [OF u w] s r l show ?thesis
      by (simp add: run_Cons x Idle)
  qed
qed

lemma ready_phase:
  assumes "whenReady g = Fulfilled"
  shows "whenReady (run ks ins g) = Fulfilled \<and>
         storage (run ks ins g) = storage (serve (requests ins) g) \<and>
         replies (run ks ins g) = replies (serve (requests ins) g) \<and>
         listening (run ks ins g) = listening g"
  using assms
proof (induction ins arbitrary: g)
  case Nil
  then show ?case by (simp add: run_Nil serve_Nil)
next
  case (Cons x ins)
  obtain dt i where x: "x = (dt, i)" by (cases x)
  let ?g = "react ks g x"
  show ?case
  proof (cases i)
    case (InitSettled failure ses)
    have w: "whenReady ?g = Fulfilled" and s: "storage ?g = storage g" and r: "replies ?g = replies g"
      and l: "listening ?g = listening g"
      using Cons.prems by (simp_all add: x InitSettled init_settled_def advance_fields)
    from Cons.IH [OF w] serve_cong [OF s r, of "requests ins"] l show ?thesis
      by (simp add: run_Cons x InitSettled)
  next
    case (Call rid c a)
    show ?thesis
    proof (cases "is_command c")
      case True
      have g: "?g = body (rid, c, a) (advance dt g)"
        using Cons.prems True by (simp add: x Call call_def advance_fields)
      have w: "whenReady ?g = Fulfilled" and l: "listening ?g = listening g"
        using Cons.prems by (simp_all add: g body_debounce advance_fields)
      have "storage ?g = storage (body (rid, c, a) g) \<and> replies ?g = replies (body (rid, c, a) g)"
        unfolding g by (rule body_cong) (simp_all add: advance_fields)
      then have sr: "storage ?g = storage (body (rid, c, a) g)" "replies ?g = replies (body (rid, c, a) g)"
        by simp_all
      from Cons.IH [OF w] serve_cong [OF sr, of "requests ins"] l True show ?thesis
        by (simp add: run_Cons x Call serve_Cons)
    next
      case False
      have w: "whenReady ?g = Fulfilled" and s: "storage ?g = storage g" and r: "replies ?g = replies g"
        and l: "listening ?g = listening g"
        using Cons.prems False by (simp_all add: x Call call_def advance_fields)
      from Cons.IH [OF w] serve_cong [OF s r, of "requests ins"] l False show ?thesis
        by (simp add: run_Cons x Call)
    qed
  next
    case (StorageChange e)
    have w: "whenReady ?g = Fulfilled" and s: "storage ?g = storage g" and r: "replies ?g = replies g"
      and l: "listening ?g = listening g"
      using Cons.prems by (simp_all add: x StorageChange onDidChangeStorage_fields advance_fields)
    from Cons.IH [OF w] serve_cong [OF s r, of "requests ins"] l show ?thesis
      by (simp add: run_Cons x StorageChange)
  next
    case Idle
    have w: "whenReady ?g = Fulfilled" and s: "storage ?g = storage g" and r: "replies ?g = replies g"
      and l: "listening ?g = listening g"
      using Cons.prems by (simp_all add: x Idle advance_fields)
    from Cons.IH [OF w] serve_cong [OF s r, of "requests ins"] l show ?thesis
      by (simp add: run_Cons x Idle)
  qed
qed

lemma settle_step:
  assumes "whenReady g = Pending q" and "replies g = []"
  shows "whenReady (react ks g (dt, InitSettled failure ses)) = Fulfilled"
    and "listening (react ks g (dt, InitSettled failure ses))"
    and "storage (react ks g (dt, InitSettled failure ses)) =
           storage (serve q (new_gateway (initTelemetry ks ses (storage g))))"
    and "replies (react ks g (dt, InitSettled failure ses)) =
           replies (serve q (new_gateway (initTelemetry ks ses (storage g))))"
proof -
  let ?a = "advance dt g"
  let ?g1 = "case failure of None \<Rightarrow> ?a | Some e \<Rightarrow> ?a\<lparr>unexpected := unexpected ?a @ [e], logged := logged ?a @ [e]\<rparr>"
  let ?g4 = "(registerListeners (?g1\<lparr>storage := initTelemetry ks ses (storage ?g1)\<rparr>))\<lparr>whenReady := Fulfilled\<rparr>"
  let ?n = "new_gateway (initTelemetry ks ses (storage g))"
  have r: "react ks g (dt, InitSettled failure ses) = serve q ?g4"
    using assms(1) by (simp add: init_settled_def advance_fields Let_def)
  have s4: "storage ?g4 = storage ?n" and r4: "replies ?g4 = replies ?n"
    using assms(2)
    by (simp_all add: registerListeners_def advance_fields new_gateway_def split: option.splits)
  show "whenReady (react ks g (dt, InitSettled failure ses)) = Fulfilled"
    and "listening (react ks g (dt, InitSettled failure ses))"
    unfolding r by (simp_all add: serve_debounce registerListeners_def)
  from serve_cong [OF s4 r4, of q]
  show "storage (react ks g (dt, InitSettled failure ses)) = storage (serve q ?n)"
    and "replies (react ks g (dt, InitSettled failure ses)) = replies (serve q ?n)"
    unfolding r by simp_all
qed

lemma new_gateway_fields:
  "whenReady (new_gateway s) = Pending []" "replies (new_gateway s) = []" "storage (new_gateway s) = s"
  "listening (new_gateway s) = False"
  by (simp_all add: new_gateway_def)

text \<open>
  C1. While the initialization has not settled, no call to \<^verbatim>\<open>getItems\<close>,
  \<^verbatim>\<open>updateItems\<close> or \<^verbatim>\<open>checkIntegrity\<close> is answered and the storage is untouched: the
  calls wait on \<^verbatim>\<open>whenReady\<close> in the order they were issued, and no listener is
  registered. Once the initialization settles, with or without an error, the Gateway is
  ready and listening, and the storage and the answers are those of running
  \<^verbatim>\<open>initTelemetry\<close> first and then the bodies of all calls, those issued before and
  those issued after, in the order of issue, each call answered once. In particular, a
  \<^verbatim>\<open>getItems\<close> and an \<^verbatim>\<open>updateItems\<close> issued before the initialization settles are
  both answered once it has, and a later \<^verbatim>\<open>getItems\<close> returns the items of the storage
  as the update left it.
\<close>

theorem calls_wait_for_initialization:
  assumes "unsettled before"
  shows "whenReady (run ks before (new_gateway s)) = Pending (requests before)
       \<and> replies (run ks before (new_gateway s)) = []
       \<and> storage (run ks before (new_gateway s)) = s
       \<and> \<not> listening (run ks before (new_gateway s))
       \<and> whenReady (run ks (before @ (dt, InitSettled failure ses) # after) (new_gateway s)) = Fulfilled
       \<and> listening (run ks (before @ (dt, InitSettled failure ses) # after) (new_gateway s))
       \<and> storage (run ks (before @ (dt, InitSettled failure ses) # after) (new_gateway s)) =
           storage (serve (requests (before @ after)) (new_gateway (initTelemetry ks ses s)))
       \<and> replies (run ks (before @ (dt, InitSettled failure ses) # after) (new_gateway s)) =
           replies (serve (requests (before @ after)) (new_gateway (initTelemetry ks ses s)))
       \<and> map fst (replies (run ks (before @ (dt, InitSettled failure ses) # after) (new_gateway s))) =
           map fst (requests (before @ after))
       \<and> replies (run ks [(d1, Call a ''getItems'' x), (d2, Call b ''updateItems'' (ArgRequest r)),
                           (d3, InitSettled failure ses), (d4, Call c ''getItems'' y)] (new_gateway s)) =
           [(a, Items (storage_items (initTelemetry ks ses s))), (b, Done),
            (c, Items (storage_items (updateItems_body r (initTelemetry ks ses s))))]"
proof -
  let ?gB = "run ks before (new_gateway s)"
  let ?gS = "react ks ?gB (dt, InitSettled failure ses)"
  let ?gA = "run ks after ?gS"
  let ?n = "new_gateway (initTelemetry ks ses s)"
  from pending_phase [OF assms, of "new_gateway s" "[]" ks]
  have wB: "whenReady ?gB = Pending (requests before)" and rB: "replies ?gB = []"
    and sB: "storage ?gB = s" and lB: "\<not> listening ?gB"
    by (simp_all add: new_gateway_fields)
  note st = settle_step [OF wB rB, of ks dt failure ses]
  from ready_phase [OF st(1), of ks after]
  have wA: "whenReady ?gA = Fulfilled" and lA: "listening ?gA"
    and sA: "storage ?gA = storage (serve (requests after) ?gS)"
    and rA: "replies ?gA = replies (serve (requests after) ?gS)"
    using st(2) by simp_all
  note st3 = st(3) [unfolded sB] and st4 = st(4) [unfolded sB]
  note sc = serve_cong [OF st3 st4, of "requests after"]
  have sA': "storage ?gA = storage (serve (requests (before @ after)) ?n)"
    unfolding requests_append serve_append using sA sc [THEN conjunct1] by (rule trans)
  have rA': "replies ?gA = replies (serve (requests (before @ after)) ?n)"
    unfolding requests_append serve_append using rA sc [THEN conjunct2] by (rule trans)
  have whole: "run ks (before @ (dt, InitSettled failure ses) # after) (new_gateway s) = ?gA"
    by (simp add: run_append run_Cons del: react.simps)
  have order: "map fst (replies ?gA) = map fst (requests (before @ after))"
    by (simp add: rA' serve_replies new_gateway_fields del: react.simps)
  have scenario:
    "replies (run ks [(d1, Call a ''getItems'' x), (d2, Call b ''updateItems'' (ArgRequest r)),
                      (d3, InitSettled failure ses), (d4, Call c ''getItems'' y)] (new_gateway s)) =
       [(a, Items (storage_items (initTelemetry ks ses s))), (b, Done),
        (c, Items (storage_items (updateItems_body r (initTelemetry ks ses s))))]"
  proof -
    let ?pre = "[(d1, Call a ''getItems'' x), (d2, Call b ''updateItems'' (ArgRequest r))]"
    let ?qs = "[(a, ''getItems'', x), (b, ''updateItems'', ArgRequest r)]"
    have u: "unsettled ?pre"
      by simp
    let ?g = "run ks ?pre (new_gateway s)"
    let ?h = "react ks ?g (d3, InitSettled failure ses)"
    from pending_phase [OF u, of "new_gateway s" "[]" ks]
    have w: "whenReady ?g = Pending ?qs"
      and r0: "replies ?g = []" and s0: "storage ?g = s"
      by (simp_all add: new_gateway_fields is_command_def del: react.simps)
    note st' = settle_step [OF w r0, of ks d3 failure ses]
    have e1: "replies (serve ?qs ?n) = [(a, Items (storage_items (initTelemetry ks ses s))), (b, Done)]"
      and e2: "storage (serve ?qs ?n) = updateItems_body r (initTelemetry ks ses s)"
      by (simp_all add: serve_Cons serve_Nil body_def mapToSerializable_entries new_gateway_def)
    have rh: "replies ?h = [(a, Items (storage_items (initTelemetry ks ses s))), (b, Done)]"
      using st'(4) [unfolded s0] e1 by (rule trans)
    have sh: "storage ?h = updateItems_body r (initTelemetry ks ses s)"
      using st'(3) [unfolded s0] e2 by (rule trans)
    from ready_phase [OF st'(1), of ks "[(d4, Call c ''getItems'' y)]"]
    have "replies (run ks [(d4, Call c ''getItems'' y)] ?h) = replies (body (c, ''getItems'', y) ?h)"
      by (simp add: is_command_def serve_Cons serve_Nil del: react.simps)
    also have "\<dots> = replies ?h @ [(c, Items (storage_items (storage ?h)))]"
      by (simp add: body_def mapToSerializable_entries del: react.simps)
    also have "\<dots> = [(a, Items (storage_items (initTelemetry ks ses s))), (b, Done),
                     (c, Items (storage_items (updateItems_body r (initTelemetry ks ses s))))]"
      unfolding rh sh by simp
    finally show ?thesis
      by (simp add: run_def del: react.simps)
  qed
  show ?thesis
    unfolding whole
    using wB rB sB lB wA lA sA' rA' order scenario by blast
qed


theorem calls_wait_for_initialization_witness:
  "unsettled [(0, Call 1 ''getItems'' ArgUndefined),
              (5, Call 2 ''updateItems'' (ArgRequest \<lparr>insert_items = Some [(''a'', ''9'')], delete_keys = Some [''b'']\<rparr>))]
   \<and> replies (run sample_keys
        [(0, Call 1 ''getItems'' ArgUndefined),
         (5, Call 2 ''updateItems'' (ArgRequest \<lparr>insert_items = Some [(''a'', ''9'')], delete_keys = Some [''b'']\<rparr>))]
        (new_gateway sample_storage)) = []
   \<and> replies (run sample_keys
        ([(0, Call 1 ''getItems'' ArgUndefined),
          (5, Call 2 ''updateItems'' (ArgRequest \<lparr>insert_items = Some [(''a'', ''9'')], delete_keys = Some [''b'']\<rparr>))]
         @ (7, InitSettled None sample_session) # [(3, Call 3 ''getItems'' ArgUndefined)])
        (new_gateway sample_storage)) =
       [(1, Items [(''telemetry.instanceId'', ''id-0''), (''telemetry.firstSessionDate'', ''Mon''),
                   (''telemetry.currentSessionDate'', ''Wed''), (''a'', ''1''), (''b'', ''2''),
                   (''telemetry.lastSessionDate'', ''Tue'')]),
        (2, Done),
        (3, Items [(''telemetry.instanceId'', ''id-0''), (''telemetry.firstSessionDate'', ''Mon''),
                   (''telemetry.currentSessionDate'', ''Wed''), (''a'', ''9''),
                   (''telemetry.lastSessionDate'', ''Tue'')])]"
proof -
  let ?before = "[(0::nat, Call 1 ''getItems'' ArgUndefined),
      (5, Call 2 ''updateItems'' (ArgRequest \<lparr>insert_items = Some [(''a'', ''9'')], delete_keys = Some [''b'']\<rparr>))]"
  let ?after = "[(3::nat, Call 3 ''getItems'' ArgUndefined)]"
  have u: "unsettled ?before"
    by simp
  note inst = calls_wait_for_initialization [OF u, of sample_keys sample_storage 7 None sample_session ?after]
  have v: "replies (serve (requests (?before @ ?after))
             (new_gateway (initTelemetry sample_keys sample_session sample_storage))) =
       [(1, Items [(''telemetry.instanceId'', ''id-0''), (''telemetry.firstSessionDate'', ''Mon''),
                   (''telemetry.currentSessionDate'', ''Wed''), (''a'', ''1''), (''b'', ''2''),
                   (''telemetry.lastSessionDate'', ''Tue'')]),
        (2, Done),
        (3, Items [(''telemetry.instanceId'', ''id-0''), (''telemetry.firstSessionDate'', ''Mon''),
                   (''telemetry.currentSessionDate'', ''Wed''), (''a'', ''9''),
                   (''telemetry.lastSessionDate'', ''Tue'')])]"
    by code_simp
  from inst have a: "replies (run sample_keys ?before (new_gateway sample_storage)) = []"
    by blast
  from inst have "replies (run sample_keys (?before @ (7, InitSettled None sample_session) # ?after)
                     (new_gateway sample_storage)) =
                  replies (serve (requests (?before @ ?after))
                     (new_gateway (initTelemetry sample_keys sample_session sample_storage)))"
    by blast
  from this v have b: "replies (run sample_keys (?before @ (7, InitSettled None sample_session) # ?after)
                     (new_gateway sample_storage)) =
       [(1, Items [(''telemetry.instanceId'', ''id-0''), (''telemetry.firstSessionDate'', ''Mon''),
                   (''telemetry.currentSessionDate'', ''Wed''), (''a'', ''1''), (''b'', ''2''),
                   (''telemetry.lastSessionDate'', ''Tue'')]),
        (2, Done),
        (3, Items [(''telemetry.instanceId'', ''id-0''), (''telemetry.firstSessionDate'', ''Mon''),
                   (''telemetry.currentSessionDate'', ''Wed''), (''a'', ''9''),
                   (''telemetry.lastSessionDate'', ''Tue'')])]"
    by (rule trans)
  from u a b show ?thesis by blast
qed

section \<open>Failure of the storage's initialization\<close>

lemma body_logs:
  "body q (g\<lparr>unexpected := u, logged := l\<rparr>) = (body q g)\<lparr>unexpected := u, logged := l\<rparr>"
  by (cases q) (simp add: body_def split: arg.splits)

lemma serve_logs:
  "serve qs (g\<lparr>unexpected := u, logged := l\<rparr>) = (serve qs g)\<lparr>unexpected := u, logged := l\<rparr>"
  by (induction qs arbitrary: g) (simp_all add: serve_Nil serve_Cons body_logs)

lemma body_logs_kept: "unexpected (body q g) = unexpected g" "logged (body q g) = logged g"
  by (cases q; simp add: body_def split: arg.splits)+

lemma serve_logs_kept: "unexpected (serve qs g) = unexpected g" "logged (serve qs g) = logged g"
  by (induction qs arbitrary: g; simp add: serve_Nil serve_Cons body_logs_kept)+

lemma body_storage_cong: "storage g = storage h \<Longrightarrow> storage (body q g) = storage (body q h)"
  by (cases q) (simp add: body_def split: arg.splits)

lemma serve_storage_cong: "storage g = storage h \<Longrightarrow> storage (serve qs g) = storage (serve qs h)"
proof (induction qs arbitrary: g h)
  case Nil
  then show ?case by (simp add: serve_Nil)
next
  case (Cons q qs)
  from Cons.IH [OF body_storage_cong [OF Cons.prems, of q]] show ?case
    by (simp add: serve_Cons)
qed

text \<open>
  C7. When \<^verbatim>\<open>initialize()\<close> rejects while \<^verbatim>\<open>whenReady\<close> is pending, the Gateway ends in
  the state it reaches when \<^verbatim>\<open>initialize()\<close> succeeds, but for the error reported and
  logged: nothing is thrown, the identity values are seeded, the listener is registered,
  \<^verbatim>\<open>whenReady\<close> is fulfilled and the waiting calls have run; and a later call of any of
  the three commands is answered at once, without an exception.
\<close>

theorem init_failure_is_swallowed:
  assumes "whenReady g = Pending waiting"
  shows "react ks g (dt, InitSettled (Some e) ses) =
           (react ks g (dt, InitSettled None ses))\<lparr>unexpected := unexpected g @ [e], logged := logged g @ [e]\<rparr>
       \<and> logged (react ks g (dt, InitSettled (Some e) ses)) = logged g @ [e]
       \<and> thrown (react ks g (dt, InitSettled (Some e) ses)) = thrown g
       \<and> whenReady (react ks g (dt, InitSettled (Some e) ses)) = Fulfilled
       \<and> listening (react ks g (dt, InitSettled (Some e) ses))
       \<and> storage (react ks g (dt, InitSettled (Some e) ses)) =
           storage (serve waiting (new_gateway (initTelemetry ks ses (storage g))))
       \<and> (\<forall>rid c a d. is_command c \<longrightarrow>
             thrown (react ks (react ks g (dt, InitSettled (Some e) ses)) (d, Call rid c a)) = thrown g \<and>
             (\<exists>r. replies (react ks (react ks g (dt, InitSettled (Some e) ses)) (d, Call rid c a)) =
                    replies (react ks g (dt, InitSettled (Some e) ses)) @ [(rid, r)]))"
proof -
  let ?a = "advance dt g"
  let ?ok = "?a\<lparr>storage := initTelemetry ks ses (storage g), listening := True, whenReady := Fulfilled\<rparr>"
  let ?f = "react ks g (dt, InitSettled (Some e) ses)"
  have wa: "whenReady ?a = Pending waiting"
    using assms by (simp add: advance_fields)
  have none: "react ks g (dt, InitSettled None ses) = serve waiting ?ok"
    using wa by (simp add: init_settled_def Let_def advance_fields registerListeners_def)
  have swap: "?a\<lparr>unexpected := unexpected g @ [e], logged := logged g @ [e],
                   storage := initTelemetry ks ses (storage g), listening := True, whenReady := Fulfilled\<rparr> =
              ?ok\<lparr>unexpected := unexpected g @ [e], logged := logged g @ [e]\<rparr>"
    by (cases ?a) simp
  have some: "?f = serve waiting (?ok\<lparr>unexpected := unexpected g @ [e], logged := logged g @ [e]\<rparr>)"
    using wa by (simp add: init_settled_def Let_def advance_fields registerListeners_def swap)
  have eq: "?f = (react ks g (dt, InitSettled None ses))\<lparr>unexpected := unexpected g @ [e], logged := logged g @ [e]\<rparr>"
    unfolding some none by (rule serve_logs)
  have lg: "logged ?f = logged g @ [e]"
    unfolding some by (simp add: serve_logs_kept)
  have th: "thrown ?f = thrown g"
    unfolding some by (simp add: serve_debounce advance_fields)
  have w: "whenReady ?f = Fulfilled" and l: "listening ?f"
    unfolding some by (simp_all add: serve_debounce)
  have st: "storage ?f = storage (serve waiting (new_gateway (initTelemetry ks ses (storage g))))"
    unfolding some by (rule serve_storage_cong) (simp add: new_gateway_def)
  have served: "thrown (react ks ?f (d, Call rid c a)) = thrown g \<and>
                (\<exists>r. replies (react ks ?f (d, Call rid c a)) = replies ?f @ [(rid, r)])"
    if "is_command c" for rid c a d
  proof -
    have "react ks ?f (d, Call rid c a) = body (rid, c, a) (advance d ?f)"
      using that w by (simp add: call_def advance_fields del: react.simps(1))
    with body_replies [of rid c a "advance d ?f"] th show ?thesis
      by (simp add: body_debounce advance_fields del: react.simps)
  qed
  from eq lg th w l st served show ?thesis
    by blast
qed


theorem init_failure_is_swallowed_witness:
  "whenReady (run sample_keys [(0, Call 1 ''getItems'' ArgUndefined)] (new_gateway sample_storage)) =
     Pending [(1, ''getItems'', ArgUndefined)]
   \<and> logged (react sample_keys (run sample_keys [(0, Call 1 ''getItems'' ArgUndefined)] (new_gateway sample_storage))
        (4, InitSettled (Some ''SQLITE_CANTOPEN'') sample_session)) = [''SQLITE_CANTOPEN'']
   \<and> whenReady (react sample_keys (run sample_keys [(0, Call 1 ''getItems'' ArgUndefined)] (new_gateway sample_storage))
        (4, InitSettled (Some ''SQLITE_CANTOPEN'') sample_session)) = Fulfilled
   \<and> listening (react sample_keys (run sample_keys [(0, Call 1 ''getItems'' ArgUndefined)] (new_gateway sample_storage))
        (4, InitSettled (Some ''SQLITE_CANTOPEN'') sample_session))
   \<and> replies (react sample_keys
        (react sample_keys (run sample_keys [(0, Call 1 ''getItems'' ArgUndefined)] (new_gateway sample_storage))
           (4, InitSettled (Some ''SQLITE_CANTOPEN'') sample_session))
        (2, Call 2 ''checkIntegrity'' (ArgBool True))) =
       [(1, Items [(''telemetry.instanceId'', ''id-0''), (''telemetry.firstSessionDate'', ''Mon''),
                   (''telemetry.currentSessionDate'', ''Wed''), (''a'', ''1''), (''b'', ''2''),
                   (''telemetry.lastSessionDate'', ''Tue'')]),
        (2, Report ''ok'')]"
proof -
  let ?g = "run sample_keys [(0, Call 1 ''getItems'' ArgUndefined)] (new_gateway sample_storage)"
  let ?f = "react sample_keys ?g (4, InitSettled (Some ''SQLITE_CANTOPEN'') sample_session)"
  have p: "whenReady ?g = Pending [(1, ''getItems'', ArgUndefined)]"
    by code_simp
  note inst = init_failure_is_swallowed [OF p, of sample_keys 4 "''SQLITE_CANTOPEN''" sample_session]
  have l0: "logged ?g @ [''SQLITE_CANTOPEN''] = [''SQLITE_CANTOPEN'']"
    by code_simp
  from inst have "logged ?f = logged ?g @ [''SQLITE_CANTOPEN'']"
    by blast
  from this l0 have a: "logged ?f = [''SQLITE_CANTOPEN'']"
    by (rule trans)
  from inst have b: "whenReady ?f = Fulfilled" and c: "listening ?f"
    by blast+
  have d: "replies (react sample_keys ?f (2, Call 2 ''checkIntegrity'' (ArgBool True))) =
       [(1, Items [(''telemetry.instanceId'', ''id-0''), (''telemetry.firstSessionDate'', ''Mon''),
                   (''telemetry.currentSessionDate'', ''Wed''), (''a'', ''1''), (''b'', ''2''),
                   (''telemetry.lastSessionDate'', ''Tue'')]),
        (2, Report ''ok'')]"
    by code_simp
  from p a b c d show ?thesis by blast
qed

section \<open>The Proxy's handler of remote change events\<close>

lemma destructure_iterable: "iterable x \<Longrightarrow> \<exists>k v. destructure x = Inr (k, v)"
  by (cases x) simp_all

lemma destructure_not_iterable: "\<not> iterable x \<Longrightarrow> destructure x = Inl TypeError"
  by (cases x) simp_all

lemma insert_entries_iterable:
  "list_all iterable xs \<Longrightarrow> \<exists>m. insert_entries its xs = Inr m"
proof (induction xs arbitrary: its)
  case Nil
  then show ?case by simp
next
  case (Cons x xs)
  from Cons.prems have "iterable x" and rest: "list_all iterable xs" by simp_all
  from destructure_iterable [OF this(1)] obtain k v where "destructure x = Inr (k, v)" by blast
  with Cons.IH [OF rest, of "set_entry k v its"] show ?case by simp
qed

lemma insert_entries_not_iterable:
  "\<not> list_all iterable xs \<Longrightarrow> insert_entries its xs = Inl TypeError"
proof (induction xs arbitrary: its)
  case Nil
  then show ?case by simp
next
  case (Cons x xs)
  show ?case
  proof (cases "iterable x")
    case True
    from destructure_iterable [OF True] obtain k v where d: "destructure x = Inr (k, v)" by blast
    from Cons.prems True have "\<not> list_all iterable xs" by simp
    from Cons.IH [OF this, of "set_entry k v its"] d show ?thesis by simp
  next
    case False
    from destructure_not_iterable [OF False] show ?thesis by simp
  qed
qed

lemma destructure_wire_item: "destructure (wire_item (k, v)) = Inr (WString k, v)"
  by (simp add: wire_item_def)

lemma set_entry_typed:
  "set_entry (WString k) v (map (\<lambda>(a, b). (WString a, b)) m) =
     map (\<lambda>(a, b). (WString a, b)) (map_set k v m)"
  by (induction m) auto

lemma insert_entries_typed:
  "insert_entries (map (\<lambda>(a, b). (WString a, b)) acc) (map wire_item its) =
     Inr (map (\<lambda>(a, b). (WString a, b)) (foldl (\<lambda>items (key, val). map_set key val items) acc its))"
proof (induction its arbitrary: acc)
  case Nil
  then show ?case by simp
next
  case (Cons x its)
  obtain k v where x: "x = (k, v)" by (cases x)
  from Cons.IH [of "map_set k v acc"] show ?case
    by (simp add: x destructure_wire_item set_entry_typed)
qed

lemma serializableToMap_untyped_typed:
  "serializableToMap_untyped (map wire_item its) =
     Inr (map (\<lambda>(a, b). (WString a, b)) (serializableToMap its))"
  using insert_entries_typed [of "[]" its]
  by (simp add: serializableToMap_untyped_def serializableToMap_def)

lemma not_array_cases: "\<not> isArray its \<Longrightarrow> (case its of WArray xs \<Rightarrow> f xs | _ \<Rightarrow> c) = c"
  by (cases its) simp_all

lemma property_defined: "e \<noteq> WUndefined \<Longrightarrow> e \<noteq> WNull \<Longrightarrow> \<exists>its. property e ''items'' = Inr its"
  by (cases e) simp_all

text \<open>
  The handler raises exactly on a payload that is \<^verbatim>\<open>undefined\<close> or \<^verbatim>\<open>null\<close>, whose
  \<^verbatim>\<open>items\<close> cannot be read, and on a payload whose \<^verbatim>\<open>items\<close> is an array with an
  element that is not iterable.
\<close>

lemma onDidChangeItemsOnMain_raises_iff:
  "onDidChangeItemsOnMain e p = Inl TypeError \<longleftrightarrow>
     e = WUndefined \<or> e = WNull \<or> (\<exists>xs. property e ''items'' = Inr (WArray xs) \<and> \<not> list_all iterable xs)"
proof (cases "e = WUndefined \<or> e = WNull")
  case True
  then show ?thesis by (auto simp: onDidChangeItemsOnMain_def)
next
  case False
  with property_defined obtain its where its: "property e ''items'' = Inr its" by blast
  show ?thesis
  proof (cases its)
    case (WArray xs)
    show ?thesis
    proof (cases "list_all iterable xs")
      case True
      from insert_entries_iterable [OF True, of "[]"] obtain m where "insert_entries [] xs = Inr m" by blast
      with False its WArray True show ?thesis
        by (simp add: onDidChangeItemsOnMain_def serializableToMap_untyped_def)
    next
      case nit: False
      from insert_entries_not_iterable [OF nit, of "[]"] False its WArray nit show ?thesis
        by (simp add: onDidChangeItemsOnMain_def serializableToMap_untyped_def)
    qed
  qed (use False its in \<open>simp_all add: onDidChangeItemsOnMain_def\<close>)
qed

text \<open>
  C8, as the code has it. For a payload other than \<^verbatim>\<open>undefined\<close> and \<^verbatim>\<open>null\<close> whose
  \<^verbatim>\<open>items\<close> field is not an array, \<^verbatim>\<open>onDidChangeItemsOnMain\<close> returns normally and leaves
  the client as it was: no local event is fired and no exception escapes. For a payload
  whose \<^verbatim>\<open>items\<close> field is an array of iterable elements, it returns normally and has
  fired exactly one more local event, which carries the mapping decoded from the array;
  when the array holds Items, that mapping is the one \<^verbatim>\<open>serializableToMap\<close> gives for
  them.
\<close>

theorem onDidChangeItemsOnMain_guarded:
  "(e \<noteq> WUndefined \<and> e \<noteq> WNull \<and> \<not> items_is_array e \<longrightarrow> onDidChangeItemsOnMain e p = Inr p)
   \<and> (property e ''items'' = Inr (WArray xs) \<and> list_all iterable xs \<longrightarrow>
        (\<exists>m. serializableToMap_untyped xs = Inr m \<and>
             onDidChangeItemsOnMain e p = Inr (p\<lparr>external := external p @ [StorageItemsChangeEvent m]\<rparr>)))
   \<and> (property e ''items'' = Inr (WArray (map wire_item its)) \<longrightarrow>
        onDidChangeItemsOnMain e p =
          Inr (p\<lparr>external := external p @
                 [StorageItemsChangeEvent (map (\<lambda>(k, v). (WString k, v)) (serializableToMap its))]\<rparr>))"
proof (intro conjI impI)
  assume a: "e \<noteq> WUndefined \<and> e \<noteq> WNull \<and> \<not> items_is_array e"
  with property_defined obtain its where its: "property e ''items'' = Inr its" by blast
  with a have "\<not> isArray its" by (simp add: items_is_array_def)
  with its show "onDidChangeItemsOnMain e p = Inr p"
    by (simp add: onDidChangeItemsOnMain_def not_array_cases)
next
  assume a: "property e ''items'' = Inr (WArray xs) \<and> list_all iterable xs"
  then obtain m where m: "serializableToMap_untyped xs = Inr m"
    using insert_entries_iterable [of xs "[]"] by (auto simp: serializableToMap_untyped_def)
  with a show "\<exists>m. serializableToMap_untyped xs = Inr m \<and>
             onDidChangeItemsOnMain e p = Inr (p\<lparr>external := external p @ [StorageItemsChangeEvent m]\<rparr>)"
    by (simp add: onDidChangeItemsOnMain_def)
next
  assume "property e ''items'' = Inr (WArray (map wire_item its))"
  then show "onDidChangeItemsOnMain e p =
          Inr (p\<lparr>external := external p @
                 [StorageItemsChangeEvent (map (\<lambda>(k, v). (WString k, v)) (serializableToMap its))]\<rparr>)"
    by (simp add: onDidChangeItemsOnMain_def serializableToMap_untyped_typed)
qed

text \<open>
  C8 as stated fails: \<^verbatim>\<open>null\<close> and \<^verbatim>\<open>undefined\<close> are payloads without an array in
  \<^verbatim>\<open>items\<close>, and reading \<^verbatim>\<open>e.items\<close> raises a TypeError on them; the array
  \<^verbatim>\<open>[1, 2]\<close> in \<^verbatim>\<open>items\<close> passes the guard, and decoding it raises a TypeError, so no
  event is fired.
\<close>

theorem onDidChangeItemsOnMain_raises:
  "\<not> items_is_array WNull
   \<and> onDidChangeItemsOnMain WNull new_proxy = Inl TypeError
   \<and> \<not> items_is_array WUndefined
   \<and> onDidChangeItemsOnMain WUndefined new_proxy = Inl TypeError
   \<and> items_is_array (WObject [(''items'', WArray [WNumber 1, WNumber 2])])
   \<and> onDidChangeItemsOnMain (WObject [(''items'', WArray [WNumber 1, WNumber 2])]) new_proxy = Inl TypeError"
  by (simp add: items_is_array_def onDidChangeItemsOnMain_def serializableToMap_untyped_def)


theorem onDidChangeItemsOnMain_guarded_witness:
  "WObject [(''items'', WString ''nope'')] \<noteq> WUndefined
   \<and> WObject [(''items'', WString ''nope'')] \<noteq> WNull
   \<and> \<not> items_is_array (WObject [(''items'', WString ''nope'')])
   \<and> onDidChangeItemsOnMain (WObject [(''items'', WString ''nope'')]) new_proxy = Inr new_proxy
   \<and> property (WObject [(''items'', WArray [WArray [WString ''a'', WString ''1''], WString ''bc'',
                                              WArray [WString ''a'']])]) ''items'' =
       Inr (WArray [WArray [WString ''a'', WString ''1''], WString ''bc'', WArray [WString ''a'']])
   \<and> list_all iterable [WArray [WString ''a'', WString ''1''], WString ''bc'', WArray [WString ''a'']]
   \<and> onDidChangeItemsOnMain
         (WObject [(''items'', WArray [WArray [WString ''a'', WString ''1''], WString ''bc'',
                                       WArray [WString ''a'']])]) new_proxy =
       Inr (new_proxy\<lparr>external := external new_proxy @
              [StorageItemsChangeEvent [(WString ''a'', WUndefined), (WString ''b'', WString ''c'')]]\<rparr>)
   \<and> onDidChangeItemsOnMain
         (WObject [(''items'', WArray (map wire_item [(''a'', WString ''1''), (''b'', WNull), (''a'', WString ''3'')]))])
         new_proxy =
       Inr (new_proxy\<lparr>external := external new_proxy @
              [StorageItemsChangeEvent [(WString ''a'', WString ''3''), (WString ''b'', WNull)]]\<rparr>)"
proof -
  let ?e1 = "WObject [(''items'', WString ''nope'')]"
  let ?xs = "[WArray [WString ''a'', WString ''1''], WString ''bc'', WArray [WString ''a'']]"
  let ?e2 = "WObject [(''items'', WArray ?xs)]"
  let ?its = "[(''a'', WString ''1''), (''b'', WNull), (''a'', WString ''3'')]"
  let ?e3 = "WObject [(''items'', WArray (map wire_item ?its))]"
  have h1: "?e1 \<noteq> WUndefined \<and> ?e1 \<noteq> WNull \<and> \<not> items_is_array ?e1"
    by (simp add: items_is_array_def)
  have h2: "property ?e2 ''items'' = Inr (WArray ?xs) \<and> list_all iterable ?xs"
    by simp
  have h3: "property ?e3 ''items'' = Inr (WArray (map wire_item ?its))"
    by simp
  have d2: "serializableToMap_untyped ?xs = Inr [(WString ''a'', WUndefined), (WString ''b'', WString ''c'')]"
    by code_simp
  have d3: "map (\<lambda>(k, v). (WString k, v)) (serializableToMap ?its) =
              [(WString ''a'', WString ''3''), (WString ''b'', WNull)]"
    by code_simp
  from onDidChangeItemsOnMain_guarded [of ?e1 new_proxy] h1
  have c1: "onDidChangeItemsOnMain ?e1 new_proxy = Inr new_proxy"
    by blast
  from onDidChangeItemsOnMain_guarded [of ?e2 new_proxy ?xs] h2 d2
  have c2: "onDidChangeItemsOnMain ?e2 new_proxy =
       Inr (new_proxy\<lparr>external := external new_proxy @
              [StorageItemsChangeEvent [(WString ''a'', WUndefined), (WString ''b'', WString ''c'')]]\<rparr>)"
    by auto
  from onDidChangeItemsOnMain_guarded [of ?e3 new_proxy _ ?its] h3
  have "onDidChangeItemsOnMain ?e3 new_proxy =
       Inr (new_proxy\<lparr>external := external new_proxy @
              [StorageItemsChangeEvent (map (\<lambda>(k, v). (WString k, v)) (serializableToMap ?its))]\<rparr>)"
    by blast
  then have c3: "onDidChangeItemsOnMain ?e3 new_proxy =
       Inr (new_proxy\<lparr>external := external new_proxy @
              [StorageItemsChangeEvent [(WString ''a'', WString ''3''), (WString ''b'', WNull)]]\<rparr>)"
    unfolding d3 .
  from h1 h2 c1 c2 c3 show ?thesis by blast
qed

end
